theory Spec2Isabelle
  imports Complex_Main
begin

section \<open>JavaScript numbers\<close>

text \<open>
  The server (\<^verbatim>\<open>server.js\<close>) receives coordinates as JavaScript numbers. A number is a
  finite value, \<^verbatim>\<open>NaN\<close> or one of the two infinities. Every finite double is a rational,
  and the server only compares coordinates, tests them with \<^verbatim>\<open>Number.isInteger\<close> and adds
  one to whole numbers below five, all of which is exact, so finite values are rationals here.
  (The two zeros of a double are one value: the server never tells them apart.)
\<close>

datatype jsnum = Fin rat | NaN | PosInf | NegInf

text \<open>\<^verbatim>\<open>a < b\<close> on numbers: false as soon as one side is \<^verbatim>\<open>NaN\<close>.\<close>

fun js_lt :: "jsnum \<Rightarrow> jsnum \<Rightarrow> bool" where
  "js_lt NaN _ = False"
| "js_lt _ NaN = False"
| "js_lt (Fin a) (Fin b) = (a < b)"
| "js_lt _ NegInf = False"
| "js_lt NegInf _ = True"
| "js_lt PosInf _ = False"
| "js_lt _ PosInf = True"

text \<open>\<^verbatim>\<open>a >= b\<close> on numbers.\<close>

fun js_ge :: "jsnum \<Rightarrow> jsnum \<Rightarrow> bool" where
  "js_ge NaN _ = False"
| "js_ge _ NaN = False"
| "js_ge (Fin a) (Fin b) = (a \<ge> b)"
| "js_ge _ NegInf = True"
| "js_ge NegInf _ = False"
| "js_ge PosInf _ = True"
| "js_ge _ PosInf = False"

text \<open>\<^verbatim>\<open>Number.isInteger\<close>.\<close>

fun isInteger :: "jsnum \<Rightarrow> bool" where
  "isInteger (Fin r) = (of_int \<lfloor>r\<rfloor> = r)"
| "isInteger _ = False"

text \<open>The whole number a JavaScript number denotes, once \<open>isInteger\<close> has accepted it.\<close>

fun int_of_jsnum :: "jsnum \<Rightarrow> int" where
  "int_of_jsnum (Fin r) = \<lfloor>r\<rfloor>"
| "int_of_jsnum _ = 0"

definition num :: "int \<Rightarrow> jsnum" where
  "num i = Fin (of_int i)"

section \<open>Constants and data model\<close>

definition BOARD_SIZE :: nat where
  "BOARD_SIZE = 5"

text \<open>The fleet catalog \<^verbatim>\<open>SHIPS\<close>: name and length, in the order of the source.\<close>

definition SHIPS :: "(string \<times> nat) list" where
  "SHIPS = [(''Carrier'', 5), (''Battleship'', 4), (''Cruiser'', 3), (''Submarine'', 3),
            (''Destroyer'', 2)]"

type_synonym sid = string
type_synonym code = string

text \<open>
  A coordinate as it arrives: three JavaScript numbers. For \<^verbatim>\<open>placeShips\<close> these are the
  values \<^verbatim>\<open>Number(cell?.x)\<close>, \<^verbatim>\<open>Number(cell?.y)\<close>, \<^verbatim>\<open>Number(cell?.z)\<close> the handler
  computes first (a missing or non-numeric field is \<open>NaN\<close>); for \<^verbatim>\<open>attack\<close> they are the
  fields of \<^verbatim>\<open>target\<close>, which the handler uses as they are.
\<close>

datatype coord = Coord (cx: jsnum) (cy: jsnum) (cz: jsnum)

text \<open>A normalized cell \<^verbatim>\<open>{ x, y, z }\<close> of a stored ship: whole numbers.\<close>

datatype cell = Cell (cell_x: int) (cell_y: int) (cell_z: int)

text \<open>
  The key \<^verbatim>\<open>`${x}:${y}:${z}`\<close> of the sets \<^verbatim>\<open>occupied\<close>, \<^verbatim>\<open>hits\<close> and \<^verbatim>\<open>misses\<close>. The text
  of a number determines the number and holds no colon, so two keys are equal exactly when the
  three numbers are: the key is kept as the triple.
\<close>

type_synonym key = "jsnum \<times> jsnum \<times> jsnum"

definition coordKey :: "coord \<Rightarrow> key" where
  "coordKey t = (cx t, cy t, cz t)"

definition cellKey :: "cell \<Rightarrow> key" where
  "cellKey c = (num (cell_x c), num (cell_y c), num (cell_z c))"

text \<open>The board: \<^verbatim>\<open>board[x][y][z]\<close> is \<^verbatim>\<open>null\<close> or a ship name.\<close>

type_synonym board = "string option list list list"

definition createEmptyBoard :: board where
  "createEmptyBoard = replicate BOARD_SIZE (replicate BOARD_SIZE (replicate BOARD_SIZE None))"

record ship =
  ship_name :: string
  ship_cells :: "cell list"

text \<open>
  A submitted ship. \<open>sub_name\<close> is \<open>None\<close> when \<^verbatim>\<open>typeof ship.name !== 'string'\<close>,
  \<open>sub_cells\<close> is \<open>None\<close> when \<^verbatim>\<open>!Array.isArray(ship.cells)\<close>; a falsy entry
  (\<^verbatim>\<open>!ship\<close>) has both \<open>None\<close>. The submitted \<^verbatim>\<open>ships\<close> value is \<open>None\<close> when it is not
  an array.
\<close>

record submitted_ship =
  sub_name :: "string option"
  sub_cells :: "coord list option"

record player =
  pid :: sid
  ready :: bool
  board :: board
  ships :: "ship list"
  hits :: "key set"
  misses :: "key set"

text \<open>
  A room. The chat log and the user names are left out: they belong to the chat utility and no
  handler below reads them.
\<close>

record room =
  players :: "player list"
  turn :: "sid option"

type_synonym rooms = "code \<rightharpoonup> room"

datatype error =
    RoomNotFound
  | RoomFull
  | PlayerNotInRoom
  | InvalidShipData
  | AllShipsMustBePlaced
  | InvalidShipConfiguration
  | UnexpectedShip
  | DuplicateShip
  | WrongCellCount string nat
  | NotWholeNumbers
  | ShipOutOfBounds
  | NotStraightLine
  | NotConsecutive
  | NotSingleAxis
  | ShipsOverlap
  | NotYourTurn
  | OpponentNotFound
  | InvalidTarget
  | AlreadyTargeted

section \<open>Room helpers\<close>

definition newPlayer :: "sid \<Rightarrow> player" where
  "newPlayer s = \<lparr>pid = s, ready = False, board = createEmptyBoard, ships = [],
                  hits = {}, misses = {}\<rparr>"

text \<open>\<^verbatim>\<open>getOpponent\<close>: \<^verbatim>\<open>null\<close> when the second seat is empty.\<close>

definition getOpponent :: "room \<Rightarrow> sid \<Rightarrow> player option" where
  "getOpponent r s =
     (case players r of
        a # b # _ \<Rightarrow> Some (if pid a = s then b else a)
      | _ \<Rightarrow> None)"

definition getPlayer :: "room \<Rightarrow> sid \<Rightarrow> player option" where
  "getPlayer r s = find (\<lambda>p. pid p = s) (players r)"

text \<open>
  The handlers change the player object that \<^verbatim>\<open>getPlayer\<close> returned, which is the first
  seat with that identity.
\<close>

fun update_first :: "('a \<Rightarrow> bool) \<Rightarrow> ('a \<Rightarrow> 'a) \<Rightarrow> 'a list \<Rightarrow> 'a list" where
  "update_first P f [] = []"
| "update_first P f (x # xs) = (if P x then f x # xs else x # update_first P f xs)"

section \<open>Ship placement\<close>

text \<open>The callback of \<^verbatim>\<open>ship.cells.map\<close>: whole numbers first, then the bounds.\<close>

definition normalizeCell :: "coord \<Rightarrow> error + cell" where
  "normalizeCell c =
     (if \<not> (isInteger (cx c) \<and> isInteger (cy c) \<and> isInteger (cz c)) then Inl NotWholeNumbers
      else if js_lt (cx c) (num 0) \<or> js_lt (cy c) (num 0) \<or> js_lt (cz c) (num 0)
              \<or> js_ge (cx c) (num (int BOARD_SIZE)) \<or> js_ge (cy c) (num (int BOARD_SIZE))
              \<or> js_ge (cz c) (num (int BOARD_SIZE))
           then Inl ShipOutOfBounds
      else Inr (Cell (int_of_jsnum (cx c)) (int_of_jsnum (cy c)) (int_of_jsnum (cz c))))"

text \<open>\<^verbatim>\<open>ship.cells.map(...)\<close>: the first cell that throws ends the map.\<close>

fun normalizeCells :: "coord list \<Rightarrow> error + cell list" where
  "normalizeCells [] = Inr []"
| "normalizeCells (c # cs) =
     (case normalizeCell c of
        Inl e \<Rightarrow> Inl e
      | Inr n \<Rightarrow> (case normalizeCells cs of Inl e \<Rightarrow> Inl e | Inr ns \<Rightarrow> Inr (n # ns)))"

datatype axis = AxisX | AxisY | AxisZ

definition axes :: "axis list" where
  "axes = [AxisX, AxisY, AxisZ]"

fun axis_of :: "axis \<Rightarrow> cell \<Rightarrow> int" where
  "axis_of AxisX c = cell_x c"
| "axis_of AxisY c = cell_y c"
| "axis_of AxisZ c = cell_z c"

text \<open>\<^verbatim>\<open>new Set(values).size\<close>.\<close>

definition set_size :: "int list \<Rightarrow> nat" where
  "set_size vs = length (remdups vs)"

definition varyingAxes :: "cell list \<Rightarrow> axis list" where
  "varyingAxes cs = filter (\<lambda>a. set_size (map (axis_of a) cs) > 1) axes"

text \<open>The loop over \<^verbatim>\<open>sortedValues\<close>: each value is its predecessor plus one.\<close>

fun consecutive :: "int list \<Rightarrow> bool" where
  "consecutive [] = True"
| "consecutive [v] = True"
| "consecutive (v # w # vs) = (w = v + 1 \<and> consecutive (w # vs))"

text \<open>The block guarded by \<^verbatim>\<open>normalizedCells.length > 1\<close>.\<close>

definition checkLine :: "cell list \<Rightarrow> error option" where
  "checkLine cs =
     (if length cs > 1 then
        (case varyingAxes cs of
           [a] \<Rightarrow>
             if \<not> consecutive (sort (map (axis_of a) cs)) then Some NotConsecutive
             else if list_ex (\<lambda>k. set_size (map (axis_of k) cs) \<noteq> 1)
                       (filter (\<lambda>k. k \<noteq> a) axes)
                  then Some NotSingleAxis
             else None
         | _ \<Rightarrow> Some NotStraightLine)
      else None)"

text \<open>\<^verbatim>\<open>board[x][y][z] = name\<close>, for a cell inside the board.\<close>

definition board_set :: "board \<Rightarrow> cell \<Rightarrow> string \<Rightarrow> board" where
  "board_set b c name =
     (let i = nat (cell_x c); j = nat (cell_y c); k = nat (cell_z c)
      in b[i := (b ! i)[j := (b ! i ! j)[k := Some name]]])"

text \<open>The local variables the \<^verbatim>\<open>forEach\<close> over the submitted ships builds up.\<close>

record placement =
  pl_board :: board
  pl_occupied :: "key set"
  pl_seenNames :: "string set"
  pl_sanitizedShips :: "ship list"

text \<open>\<^verbatim>\<open>normalizedCells.forEach\<close>: overlap check, then the cell is written.\<close>

fun markCells :: "string \<Rightarrow> board \<times> key set \<Rightarrow> cell list \<Rightarrow> error + board \<times> key set" where
  "markCells name (b, occ) [] = Inr (b, occ)"
| "markCells name (b, occ) (c # cs) =
     (if cellKey c \<in> occ then Inl ShipsOverlap
      else markCells name (board_set b c name, insert (cellKey c) occ) cs)"

text \<open>The callback of \<^verbatim>\<open>ships.forEach\<close>, with every \<^verbatim>\<open>throw\<close> as an error value.\<close>

definition placeShip :: "placement \<Rightarrow> submitted_ship \<Rightarrow> error + placement" where
  "placeShip st s =
     (case (sub_name s, sub_cells s) of
        (Some name, Some cells) \<Rightarrow>
          (case map_of SHIPS name of
             None \<Rightarrow> Inl UnexpectedShip
           | Some requiredLength \<Rightarrow>
               if requiredLength = 0 then Inl UnexpectedShip
               else if name \<in> pl_seenNames st then Inl DuplicateShip
               else if length cells \<noteq> requiredLength then Inl (WrongCellCount name requiredLength)
               else
                 (case normalizeCells cells of
                    Inl e \<Rightarrow> Inl e
                  | Inr normalizedCells \<Rightarrow>
                      (case checkLine normalizedCells of
                         Some e \<Rightarrow> Inl e
                       | None \<Rightarrow>
                           (case markCells name (pl_board st, pl_occupied st) normalizedCells of
                              Inl e \<Rightarrow> Inl e
                            | Inr (b, occ) \<Rightarrow>
                                Inr \<lparr>pl_board = b, pl_occupied = occ,
                                     pl_seenNames = insert name (pl_seenNames st),
                                     pl_sanitizedShips = pl_sanitizedShips st @
                                       [\<lparr>ship_name = name, ship_cells = normalizedCells\<rparr>]\<rparr>))))
      | _ \<Rightarrow> Inl InvalidShipConfiguration)"

fun placeAll :: "placement \<Rightarrow> submitted_ship list \<Rightarrow> error + placement" where
  "placeAll st [] = Inr st"
| "placeAll st (s # ss) =
     (case placeShip st s of Inl e \<Rightarrow> Inl e | Inr st' \<Rightarrow> placeAll st' ss)"

definition emptyPlacement :: placement where
  "emptyPlacement = \<lparr>pl_board = createEmptyBoard, pl_occupied = {}, pl_seenNames = {},
                     pl_sanitizedShips = []\<rparr>"

text \<open>
  The validation of \<^verbatim>\<open>placeShips\<close>, from \<^verbatim>\<open>Array.isArray(ships)\<close> to the end of the
  \<^verbatim>\<open>try\<close> block: the error thrown or refused, or the board and the ships to store.
\<close>

definition validateShips :: "submitted_ship list option \<Rightarrow> error + placement" where
  "validateShips submitted =
     (case submitted of
        None \<Rightarrow> Inl InvalidShipData
      | Some ss \<Rightarrow>
          if length ss \<noteq> length SHIPS then Inl AllShipsMustBePlaced
          else placeAll emptyPlacement ss)"

section \<open>Replies and broadcasts\<close>

datatype shot = Miss | Hit | Sunk

text \<open>The object \<^verbatim>\<open>payload\<close> of the attack handler.\<close>

record payload =
  attacker :: sid
  target :: coord
  result :: shot
  shipName :: "string option"
  nextTurn :: "sid option"
  winner :: "sid option"

text \<open>
  What the caller gets back through \<^verbatim>\<open>callback\<close>. \<open>Uncaught\<close> stands for a
  \<^verbatim>\<open>TypeError\<close> that leaves the handler: the callback is never called.
\<close>

datatype reply =
    Error error
  | Success
  | Created code
  | Outcome payload
  | Uncaught
  | NoReply

text \<open>What \<^verbatim>\<open>io.to(code).emit\<close> sends to a room (chat entries left out).\<close>

datatype event =
    RoomState "(sid \<times> bool) list" "sid option" bool
  | PlayerJoined
  | PlayerReady
  | GameStarted "sid option"
  | AttackResult payload
  | PlayerLeft sid

record handled =
  reply :: reply
  emitted :: "(code \<times> event) list"
  rooms_after :: rooms

definition reject :: "error \<Rightarrow> rooms \<Rightarrow> handled" where
  "reject e rs = \<lparr>reply = Error e, emitted = [], rooms_after = rs\<rparr>"

text \<open>\<^verbatim>\<open>Boolean(room.turn)\<close>: \<^verbatim>\<open>null\<close> and the empty string are falsy.\<close>

definition truthy :: "string option \<Rightarrow> bool" where
  "truthy v = (case v of None \<Rightarrow> False | Some s \<Rightarrow> s \<noteq> [])"

definition emitRoomState :: "rooms \<Rightarrow> code \<Rightarrow> (code \<times> event) list" where
  "emitRoomState rs code =
     (case rs code of
        None \<Rightarrow> []
      | Some r \<Rightarrow> [(code, RoomState (map (\<lambda>p. (pid p, ready p)) (players r)) (turn r)
                                    (truthy (turn r)))])"

section \<open>The handlers\<close>

text \<open>
  \<^verbatim>\<open>createGame\<close>, for the code \<^verbatim>\<open>generateRoomCode\<close> returned: six decimal digits that
  no live room has.
\<close>

definition roomCode :: "code \<Rightarrow> bool" where
  "roomCode c = (length c = 6 \<and> list_all (\<lambda>d. d \<in> set ''0123456789'') c)"

definition createGame :: "rooms \<Rightarrow> sid \<Rightarrow> code \<Rightarrow> handled" where
  "createGame rs s code =
     (let newRoom = \<lparr>players = [newPlayer s], turn = None\<rparr>;
          rs' = rs(code \<mapsto> newRoom)
      in \<lparr>reply = Created code, emitted = emitRoomState rs' code, rooms_after = rs'\<rparr>)"

definition joinGame :: "rooms \<Rightarrow> sid \<Rightarrow> code \<Rightarrow> handled" where
  "joinGame rs s code =
     (case rs code of
        None \<Rightarrow> reject RoomNotFound rs
      | Some r \<Rightarrow>
          if length (players r) \<ge> 2 then reject RoomFull rs
          else
            (let rs' = rs(code \<mapsto> r\<lparr>players := players r @ [newPlayer s]\<rparr>)
             in \<lparr>reply = Success, emitted = (code, PlayerJoined) # emitRoomState rs' code,
                 rooms_after = rs'\<rparr>))"

text \<open>
  \<^verbatim>\<open>placeShips\<close>. The board, the ships and \<open>ready\<close> are written after the \<^verbatim>\<open>try\<close>
  block only; the turn is set when two players are seated and all are ready.
\<close>

definition placeShips :: "rooms \<Rightarrow> sid \<Rightarrow> code \<Rightarrow> submitted_ship list option \<Rightarrow> handled" where
  "placeShips rs s code submitted =
     (case rs code of
        None \<Rightarrow> reject RoomNotFound rs
      | Some r \<Rightarrow>
          (case getPlayer r s of
             None \<Rightarrow> reject PlayerNotInRoom rs
           | Some _ \<Rightarrow>
               (case validateShips submitted of
                  Inl e \<Rightarrow> reject e rs
                | Inr pl \<Rightarrow>
                    (let r1 = r\<lparr>players := update_first (\<lambda>p. pid p = s)
                                   (\<lambda>p. p\<lparr>board := pl_board pl, ships := pl_sanitizedShips pl,
                                          ready := True\<rparr>) (players r)\<rparr>;
                         rs1 = rs(code \<mapsto> r1)
                     in if length (players r1) = 2 \<and> list_all ready (players r1)
                        then
                          (let r2 = r1\<lparr>turn := Some (pid (players r1 ! 0))\<rparr>;
                               rs2 = rs1(code \<mapsto> r2)
                           in \<lparr>reply = Success,
                               emitted = emitRoomState rs1 code @ [(code, GameStarted (turn r2))]
                                         @ emitRoomState rs2 code,
                               rooms_after = rs2\<rparr>)
                        else \<lparr>reply = Success,
                              emitted = emitRoomState rs1 code @ [(code, PlayerReady)],
                              rooms_after = rs1\<rparr>))))"

text \<open>
  \<^verbatim>\<open>xs[n]\<close> for a number \<open>n\<close>: the element when \<open>n\<close> is an index of the array,
  \<^verbatim>\<open>undefined\<close> (\<open>None\<close>) otherwise.
\<close>

definition js_index :: "'a list \<Rightarrow> jsnum \<Rightarrow> 'a option" where
  "js_index xs n =
     (if isInteger n \<and> 0 \<le> int_of_jsnum n \<and> int_of_jsnum n < int (length xs)
      then Some (xs ! nat (int_of_jsnum n)) else None)"

text \<open>
  \<^verbatim>\<open>opponent.board[x][y][z]\<close>. Reading a property of \<^verbatim>\<open>undefined\<close> throws a
  \<^verbatim>\<open>TypeError\<close> (outer \<open>None\<close>); a missing last index gives \<^verbatim>\<open>undefined\<close>, which is falsy
  like \<^verbatim>\<open>null\<close> (inner \<open>None\<close>).
\<close>

definition board_get :: "board \<Rightarrow> coord \<Rightarrow> string option option" where
  "board_get b t =
     (case js_index b (cx t) of
        None \<Rightarrow> None
      | Some plane \<Rightarrow>
          (case js_index plane (cy t) of
             None \<Rightarrow> None
           | Some line \<Rightarrow>
               Some (case js_index line (cz t) of None \<Rightarrow> None | Some c \<Rightarrow> c)))"

definition outOfRange :: "coord \<Rightarrow> bool" where
  "outOfRange t =
     (js_lt (cx t) (num 0) \<or> js_lt (cy t) (num 0) \<or> js_lt (cz t) (num 0)
      \<or> js_ge (cx t) (num (int BOARD_SIZE)) \<or> js_ge (cy t) (num (int BOARD_SIZE))
      \<or> js_ge (cz t) (num (int BOARD_SIZE)))"

text \<open>\<^verbatim>\<open>opponent.ships.every(ship => ship.cells.every(c => player.hits.has(key)))\<close>.\<close>

definition allShipsSunk :: "ship list \<Rightarrow> key set \<Rightarrow> bool" where
  "allShipsSunk ss h = list_all (\<lambda>sh. list_all (\<lambda>c. cellKey c \<in> h) (ship_cells sh)) ss"

text \<open>The end of the attack handler, from the computation of \<^verbatim>\<open>allShipsSunk\<close> on.\<close>

definition finishAttack ::
  "rooms \<Rightarrow> sid \<Rightarrow> code \<Rightarrow> coord \<Rightarrow> room \<Rightarrow> player \<Rightarrow> player \<Rightarrow> shot \<Rightarrow> string option \<Rightarrow> handled"
where
  "finishAttack rs s code t r opponent player' res name =
     (let sunk = allShipsSunk (ships opponent) (hits player');
          p = \<lparr>attacker = s, target = t, result = res, shipName = name,
               nextTurn = (if sunk then None else Some (pid opponent)),
               winner = (if sunk then Some s else None)\<rparr>;
          r1 = r\<lparr>players := update_first (\<lambda>q. pid q = s) (\<lambda>_. player') (players r)\<rparr>;
          r2 = (if \<not> sunk then r1\<lparr>turn := Some (pid opponent)\<rparr> else r1);
          rs' = rs(code \<mapsto> r2)
      in \<lparr>reply = Outcome p, emitted = (code, AttackResult p) # emitRoomState rs' code,
          rooms_after = rs'\<rparr>)"

definition attack :: "rooms \<Rightarrow> sid \<Rightarrow> code \<Rightarrow> coord \<Rightarrow> handled" where
  "attack rs s code t =
     (case rs code of
        None \<Rightarrow> reject RoomNotFound rs
      | Some r \<Rightarrow>
          if turn r \<noteq> Some s then reject NotYourTurn rs
          else
            (case (getOpponent r s, getPlayer r s) of
               (Some opponent, Some player) \<Rightarrow>
                 if outOfRange t then reject InvalidTarget rs
                 else if coordKey t \<in> hits player \<or> coordKey t \<in> misses player
                 then reject AlreadyTargeted rs
                 else
                   (case board_get (board opponent) t of
                      None \<Rightarrow> \<lparr>reply = Uncaught, emitted = [], rooms_after = rs\<rparr>
                    | Some cell \<Rightarrow>
                        if truthy cell then
                          (let player' = player\<lparr>hits := insert (coordKey t) (hits player)\<rparr>
                           in case find (\<lambda>sh. Some (ship_name sh) = cell) (ships opponent) of
                                None \<Rightarrow>
                                  \<lparr>reply = Uncaught, emitted = [],
                                   rooms_after = rs(code \<mapsto> r\<lparr>players :=
                                     update_first (\<lambda>q. pid q = s) (\<lambda>_. player') (players r)\<rparr>)\<rparr>
                              | Some sh \<Rightarrow>
                                  finishAttack rs s code t r opponent player'
                                    (if length (filter (\<lambda>c. cellKey c \<in> hits player')
                                                  (ship_cells sh)) = length (ship_cells sh)
                                     then Sunk else Hit)
                                    cell)
                        else
                          finishAttack rs s code t r opponent
                            (player\<lparr>misses := insert (coordKey t) (misses player)\<rparr>) Miss None)
             | _ \<Rightarrow> reject OpponentNotFound rs))"

text \<open>
  The body of \<^verbatim>\<open>roomCodes.forEach\<close> in the \<^verbatim>\<open>disconnecting\<close> handler, for one code of
  \<^verbatim>\<open>socket.rooms\<close>; \<^verbatim>\<open>removePlayerFromRoom\<close> is inlined.
\<close>

definition leaveRoom :: "sid \<Rightarrow> rooms \<Rightarrow> code \<Rightarrow> (code \<times> event) list \<times> rooms" where
  "leaveRoom s rs code =
     (case rs code of
        None \<Rightarrow> ([], rs)
      | Some r \<Rightarrow>
          (let opponent = getOpponent r s;
               wasTurn = (turn r = Some s);
               remainingPlayers = filter (\<lambda>p. pid p \<noteq> s) (players r)
           in if remainingPlayers = [] then ([(code, PlayerLeft s)], rs(code := None))
              else
                (let r1 = r\<lparr>players := remainingPlayers\<rparr>;
                     r2 = (if wasTurn
                           then r1\<lparr>turn :=
                                  (case opponent of
                                     Some opp \<Rightarrow> Some (pid opp)
                                   | None \<Rightarrow>
                                       (if pid (hd remainingPlayers) = [] then None
                                        else Some (pid (hd remainingPlayers))))\<rparr>
                           else r1);
                     rs' = rs(code \<mapsto> r2)
                 in ((code, PlayerLeft s) # emitRoomState rs' code, rs'))))"

fun disconnecting :: "rooms \<Rightarrow> sid \<Rightarrow> code list \<Rightarrow> handled" where
  "disconnecting rs s [] = \<lparr>reply = NoReply, emitted = [], rooms_after = rs\<rparr>"
| "disconnecting rs s (code # codes) =
     (let (ev, rs') = leaveRoom s rs code;
          h = disconnecting rs' s codes
      in h\<lparr>emitted := ev @ emitted h\<rparr>)"

section \<open>Runs of the server\<close>

text \<open>
  The requests that reach the game state. \<^verbatim>\<open>setUsername\<close> and \<^verbatim>\<open>chatMessage\<close> write user
  names and the chat log only, so they leave every room of this model as it is and are not
  listed. \<open>Disconnecting\<close> carries the codes of \<^verbatim>\<open>socket.rooms\<close>; any list of codes is
  allowed here, which covers every list the socket layer can produce.
\<close>

datatype request =
    CreateGame sid code
  | JoinGame sid code
  | PlaceShips sid code "submitted_ship list option"
  | Attack sid code coord
  | Disconnecting sid "code list"

fun handle :: "rooms \<Rightarrow> request \<Rightarrow> handled" where
  "handle rs (CreateGame s code) = createGame rs s code"
| "handle rs (JoinGame s code) = joinGame rs s code"
| "handle rs (PlaceShips s code submitted) = placeShips rs s code submitted"
| "handle rs (Attack s code t) = attack rs s code t"
| "handle rs (Disconnecting s codes) = disconnecting rs s codes"

text \<open>
  A request the server can receive in a state: \<^verbatim>\<open>createGame\<close> comes with the fresh code
  of \<^verbatim>\<open>generateRoomCode\<close>; everything else is whatever a client sends.
\<close>

fun admissible :: "rooms \<Rightarrow> request \<Rightarrow> bool" where
  "admissible rs (CreateGame s code) = (roomCode code \<and> rs code = None)"
| "admissible rs _ = True"

inductive reachable :: "rooms \<Rightarrow> bool" where
  start: "reachable Map.empty"
| step: "reachable rs \<Longrightarrow> admissible rs req \<Longrightarrow> reachable (rooms_after (handle rs req))"

section \<open>Notions for the placement proofs\<close>

text \<open>The submitted coordinate that a normalized cell comes from.\<close>

definition raw :: "cell \<Rightarrow> coord" where
  "raw c = Coord (num (cell_x c)) (num (cell_y c)) (num (cell_z c))"

text \<open>A normalized cell lies inside the board.\<close>

definition inside :: "cell \<Rightarrow> bool" where
  "inside c = (0 \<le> cell_x c \<and> cell_x c < 5 \<and> 0 \<le> cell_y c \<and> cell_y c < 5 \<and> 0 \<le> cell_z c \<and> cell_z c < 5)"

text \<open>The cells take more than one value on an axis: the axis is in \<^verbatim>\<open>varyingAxes\<close>.\<close>

definition varies :: "axis \<Rightarrow> cell list \<Rightarrow> bool" where
  "varies a ns = (\<exists>c\<in>set ns. \<exists>d\<in>set ns. axis_of a c \<noteq> axis_of a d)"

text \<open>The values on an axis are pairwise different and fill an interval of whole numbers.\<close>

definition run :: "axis \<Rightarrow> cell list \<Rightarrow> bool" where
  "run a ns = (distinct (map (axis_of a) ns) \<and>
     (\<exists>m. set (map (axis_of a) ns) = {m ..< m + int (length ns)}))"

text \<open>What \<^verbatim>\<open>checkLine\<close> accepts for more than one cell.\<close>

definition line_ok :: "cell list \<Rightarrow> bool" where
  "line_ok ns = (\<exists>a. varies a ns \<and> (\<forall>k. k \<noteq> a \<longrightarrow> \<not> varies k ns) \<and> run a ns)"

text \<open>A board has five planes of five rows of five cells.\<close>

definition cube :: "board \<Rightarrow> bool" where
  "cube b = (length b = 5 \<and> (\<forall>p\<in>set b. length p = 5 \<and> (\<forall>l\<in>set p. length l = 5)))"

text \<open>The entry of the board at a normalized cell.\<close>

definition board_at :: "board \<Rightarrow> cell \<Rightarrow> string option" where
  "board_at b c = b ! nat (cell_x c) ! nat (cell_y c) ! nat (cell_z c)"

text \<open>The board after \<^verbatim>\<open>board[x][y][z] = name\<close> for every cell of a list.\<close>

definition mark :: "string \<Rightarrow> board \<Rightarrow> cell list \<Rightarrow> board" where
  "mark name b ns = foldl (\<lambda>b c. board_set b c name) b ns"

text \<open>The locals of the \<^verbatim>\<open>forEach\<close> after one more ship has been accepted.\<close>

definition placed :: "placement \<Rightarrow> string \<Rightarrow> cell list \<Rightarrow> placement" where
  "placed st n ns = \<lparr>pl_board = mark n (pl_board st) ns,
       pl_occupied = pl_occupied st \<union> cellKey ` set ns,
       pl_seenNames = insert n (pl_seenNames st),
       pl_sanitizedShips = pl_sanitizedShips st @ [\<lparr>ship_name = n, ship_cells = ns\<rparr>]\<rparr>"

text \<open>A submitted ship passes every check in the state \<open>st\<close>, with name \<open>n\<close> and normalized cells \<open>ns\<close>.\<close>

definition fits :: "placement \<Rightarrow> submitted_ship \<Rightarrow> string \<Rightarrow> cell list \<Rightarrow> bool" where
  "fits st s n ns = (sub_name s = Some n \<and> sub_cells s = Some (map raw ns)
       \<and> map_of SHIPS n = Some (length ns) \<and> n \<notin> pl_seenNames st \<and> list_all inside ns
       \<and> line_ok ns \<and> cellKey ` set ns \<inter> pl_occupied st = {})"

section \<open>The placement rules in the words of the specification\<close>

text \<open>The value of a submitted coordinate on an axis.\<close>

fun coord_axis :: "axis \<Rightarrow> coord \<Rightarrow> jsnum" where
  "coord_axis AxisX c = cx c"
| "coord_axis AxisY c = cy c"
| "coord_axis AxisZ c = cz c"

text \<open>The cells a submitted ship lists (none when \<^verbatim>\<open>cells\<close> is not an array).\<close>

definition cells_of :: "submitted_ship \<Rightarrow> coord list" where
  "cells_of s = (case sub_cells s of None \<Rightarrow> [] | Some cs \<Rightarrow> cs)"

text \<open>A whole number; a whole number inside the board.\<close>

definition whole :: "jsnum \<Rightarrow> bool" where
  "whole v = (\<exists>i. v = num i)"

definition in_range :: "jsnum \<Rightarrow> bool" where
  "in_range v = (\<exists>i. v = num i \<and> 0 \<le> i \<and> i < int BOARD_SIZE)"

text \<open>Axis-aligned and contiguous: exactly one axis varies, and along it the cells take
  consecutive values without repetition. A single cell is a line.\<close>

definition spec_varies :: "axis \<Rightarrow> coord list \<Rightarrow> bool" where
  "spec_varies a cs = (\<exists>c\<in>set cs. \<exists>d\<in>set cs. coord_axis a c \<noteq> coord_axis a d)"

definition spec_run :: "axis \<Rightarrow> coord list \<Rightarrow> bool" where
  "spec_run a cs = (distinct (map (coord_axis a) cs) \<and>
     (\<exists>m. set (map (coord_axis a) cs) = num ` {m ..< m + int (length cs)}))"

definition one_axis :: "coord list \<Rightarrow> axis \<Rightarrow> bool" where
  "one_axis cs a = (spec_varies a cs \<and> (\<forall>k. k \<noteq> a \<longrightarrow> \<not> spec_varies k cs))"

definition spec_line :: "coord list \<Rightarrow> bool" where
  "spec_line cs = (length cs > 1 \<longrightarrow> (\<exists>a. one_axis cs a \<and> spec_run a cs))"

text \<open>The ship names of a submission are pairwise different and are exactly the names of the
  catalog; a ship has the cell count of its catalog entry; every coordinate is a whole number
  inside the board; no coordinate belongs to two ships.\<close>

definition spec_names :: "submitted_ship list \<Rightarrow> bool" where
  "spec_names ss = (distinct (map sub_name ss) \<and> set (map sub_name ss) = Some ` fst ` set SHIPS)"

definition spec_count :: "submitted_ship \<Rightarrow> bool" where
  "spec_count s = (\<exists>n k. sub_name s = Some n \<and> map_of SHIPS n = Some k \<and> length (cells_of s) = k)"

definition spec_coords :: "submitted_ship \<Rightarrow> bool" where
  "spec_coords s = (\<forall>c\<in>set (cells_of s). in_range (cx c) \<and> in_range (cy c) \<and> in_range (cz c))"

definition spec_no_overlap :: "submitted_ship list \<Rightarrow> bool" where
  "spec_no_overlap ss = (\<forall>c. length (filter (\<lambda>s. c \<in> set (cells_of s)) ss) \<le> 1)"

text \<open>A placement that satisfies every rule.\<close>

definition spec_fleet :: "submitted_ship list option \<Rightarrow> bool" where
  "spec_fleet sub = (\<exists>ss. sub = Some ss \<and> spec_names ss
      \<and> (\<forall>s\<in>set ss. spec_count s \<and> spec_coords s \<and> spec_line (cells_of s))
      \<and> spec_no_overlap ss)"

text \<open>The rule that a rejection reason names, as a property of the submission.\<close>

fun violated :: "error \<Rightarrow> submitted_ship list \<Rightarrow> bool" where
  "violated AllShipsMustBePlaced ss = (length ss \<noteq> length SHIPS)"
| "violated InvalidShipConfiguration ss = (\<exists>s\<in>set ss. sub_name s = None \<or> sub_cells s = None)"
| "violated UnexpectedShip ss = (\<exists>s\<in>set ss. \<exists>n. sub_name s = Some n \<and> n \<notin> fst ` set SHIPS)"
| "violated DuplicateShip ss = (\<not> distinct (map sub_name ss))"
| "violated (WrongCellCount n k) ss =
     (\<exists>s\<in>set ss. sub_name s = Some n \<and> map_of SHIPS n = Some k \<and> length (cells_of s) \<noteq> k)"
| "violated NotWholeNumbers ss =
     (\<exists>s\<in>set ss. \<exists>c\<in>set (cells_of s). \<not> (whole (cx c) \<and> whole (cy c) \<and> whole (cz c)))"
| "violated ShipOutOfBounds ss =
     (\<exists>s\<in>set ss. \<exists>c\<in>set (cells_of s). \<not> (in_range (cx c) \<and> in_range (cy c) \<and> in_range (cz c)))"
| "violated NotStraightLine ss =
     (\<exists>s\<in>set ss. length (cells_of s) > 1 \<and> \<not> (\<exists>a. one_axis (cells_of s) a))"
| "violated NotConsecutive ss =
     (\<exists>s\<in>set ss. length (cells_of s) > 1 \<and> (\<exists>a. one_axis (cells_of s) a \<and> \<not> spec_run a (cells_of s)))"
| "violated ShipsOverlap ss = (\<not> spec_no_overlap ss)"
| "violated _ ss = False"

definition rejected_for :: "error \<Rightarrow> submitted_ship list option \<Rightarrow> bool" where
  "rejected_for e sub = (case sub of None \<Rightarrow> e = InvalidShipData | Some ss \<Rightarrow> violated e ss)"

text \<open>The rules for one ship, and the rules for the ships still to be processed in the state
  \<open>st\<close>.\<close>

definition ship_ok :: "submitted_ship \<Rightarrow> bool" where
  "ship_ok s = (spec_count s \<and> spec_coords s \<and> spec_line (cells_of s))"

definition compat :: "placement \<Rightarrow> submitted_ship list \<Rightarrow> bool" where
  "compat st ss = ((\<forall>s\<in>set ss. ship_ok s) \<and> distinct (map sub_name ss)
     \<and> (\<forall>s\<in>set ss. \<forall>n. sub_name s = Some n \<longrightarrow> n \<notin> pl_seenNames st)
     \<and> spec_no_overlap ss
     \<and> (\<forall>s\<in>set ss. coordKey ` set (cells_of s) \<inter> pl_occupied st = {}))"

section \<open>Example data, invariants and auxiliary notions\<close>

text \<open>Example data: a coordinate with whole-number fields, and fleets for the catalog.\<close>

definition pt :: "int \<Rightarrow> int \<Rightarrow> int \<Rightarrow> coord" where
  "pt i j k = Coord (num i) (num j) (num k)"

definition entry :: "string \<Rightarrow> coord list \<Rightarrow> submitted_ship" where
  "entry n cs = \<lparr>sub_name = Some n, sub_cells = Some cs\<rparr>"

text \<open>The canonical fleet: every ship along x, one ship per row of the plane z = 0.\<close>

definition canonical_fleet :: "submitted_ship list" where
  "canonical_fleet =
     [entry ''Carrier'' [pt 0 0 0, pt 1 0 0, pt 2 0 0, pt 3 0 0, pt 4 0 0],
      entry ''Battleship'' [pt 0 1 0, pt 1 1 0, pt 2 1 0, pt 3 1 0],
      entry ''Cruiser'' [pt 0 2 0, pt 1 2 0, pt 2 2 0],
      entry ''Submarine'' [pt 0 3 0, pt 1 3 0, pt 2 3 0],
      entry ''Destroyer'' [pt 0 4 0, pt 1 4 0]]"

text \<open>A fleet whose first ship has the cells (0,0,0), (0,1,0), (0,0,1), which are not on a line.\<close>

definition crooked_fleet :: "submitted_ship list" where
  "crooked_fleet =
     entry ''Cruiser'' [pt 0 0 0, pt 0 1 0, pt 0 0 1] # tl canonical_fleet"

text \<open>A room that ''alice'' has created and nobody has joined.\<close>

definition lobby :: rooms where
  "lobby = rooms_after (createGame Map.empty ''alice'' ''000001'')"

text \<open>
  The local sets \<^verbatim>\<open>seenNames\<close> and \<^verbatim>\<open>occupied\<close> after the ships \<open>prev\<close> have been
  processed.
\<close>

definition tracks :: "placement \<Rightarrow> submitted_ship list \<Rightarrow> bool" where
  "tracks st prev = (pl_seenNames st = {n. Some n \<in> set (map sub_name prev)}
     \<and> pl_occupied st = (\<Union>s\<in>set prev. coordKey ` set (cells_of s)))"

text \<open>
  What the board and the ship list of the \<^verbatim>\<open>forEach\<close> state have to do with each other: a
  cell of the board carries a name exactly when a ship of that name in the list has the cell,
  \<^verbatim>\<open>occupied\<close> holds the keys of the listed cells, and the listed ships lie inside the board
  with their catalog lengths.
\<close>

definition board_inv :: "placement \<Rightarrow> bool" where
  "board_inv st = (cube (pl_board st)
     \<and> (\<forall>c n. inside c \<longrightarrow> (board_at (pl_board st) c = Some n)
            = (\<exists>sh\<in>set (pl_sanitizedShips st). ship_name sh = n \<and> c \<in> set (ship_cells sh)))
     \<and> pl_occupied st = (\<Union>sh\<in>set (pl_sanitizedShips st). cellKey ` set (ship_cells sh))
     \<and> (\<forall>sh\<in>set (pl_sanitizedShips st). list_all inside (ship_cells sh)
            \<and> map_of SHIPS (ship_name sh) = Some (length (ship_cells sh))))"

text \<open>
  The stored board and ship list of a player agree: \<^verbatim>\<open>board[x][y][z]\<close> is the name \<open>n\<close>
  exactly when the cell is listed for a ship named \<open>n\<close>; an attack's lookup
  \<^verbatim>\<open>opponent.board[x][y][z]\<close> finds \<open>n\<close> exactly when the target's key is the key of such a
  cell; every listed cell is inside the board; every ship has its catalog length.
\<close>

definition consistent :: "player \<Rightarrow> bool" where
  "consistent p =
     ((\<forall>i<BOARD_SIZE. \<forall>j<BOARD_SIZE. \<forall>k<BOARD_SIZE. \<forall>n.
          (board p ! i ! j ! k = Some n)
          = (\<exists>sh\<in>set (ships p). ship_name sh = n
                \<and> Cell (int i) (int j) (int k) \<in> set (ship_cells sh)))
      \<and> (\<forall>t n. (board_get (board p) t = Some (Some n))
          = (\<exists>sh\<in>set (ships p). ship_name sh = n \<and> coordKey t \<in> cellKey ` set (ship_cells sh)))
      \<and> (\<forall>sh\<in>set (ships p). \<forall>c\<in>set (ship_cells sh).
            0 \<le> cell_x c \<and> cell_x c < int BOARD_SIZE \<and> 0 \<le> cell_y c \<and> cell_y c < int BOARD_SIZE
            \<and> 0 \<le> cell_z c \<and> cell_z c < int BOARD_SIZE)
      \<and> (\<forall>sh\<in>set (ships p). map_of SHIPS (ship_name sh) = Some (length (ship_cells sh))))"

text \<open>The seats after a submission has been stored for the player \<open>s\<close>.\<close>

definition store :: "sid \<Rightarrow> placement \<Rightarrow> player list \<Rightarrow> player list" where
  "store s pl ps = update_first (\<lambda>p. pid p = s)
     (\<lambda>p. p\<lparr>board := pl_board pl, ships := pl_sanitizedShips pl, ready := True\<rparr>) ps"

text \<open>Two more rooms: ''bob'' has joined ''alice'', and then ''bob'' has placed his fleet.\<close>

definition duel_setup :: rooms where
  "duel_setup = rooms_after (joinGame lobby ''bob'' ''000001'')"

definition bob_ready :: rooms where
  "bob_ready = rooms_after (placeShips duel_setup ''bob'' ''000001'' (Some canonical_fleet))"

text \<open>The room the last part of the attack handler stores.\<close>

definition after_shot :: "room \<Rightarrow> sid \<Rightarrow> player \<Rightarrow> player \<Rightarrow> room" where
  "after_shot r s opp player' =
     r\<lparr>players := update_first (\<lambda>q. pid q = s) (\<lambda>_. player') (players r),
       turn := (if allShipsSunk (ships opp) (hits player') then turn r else Some (pid opp))\<rparr>"

text \<open>The checks an attack passes before the board is read.\<close>

definition admitted :: "rooms \<Rightarrow> sid \<Rightarrow> code \<Rightarrow> coord \<Rightarrow> room \<Rightarrow> player \<Rightarrow> player \<Rightarrow> bool" where
  "admitted rs s code t r opp p = (rs code = Some r \<and> turn r = Some s
     \<and> getOpponent r s = Some opp \<and> getPlayer r s = Some p \<and> \<not> outOfRange t
     \<and> coordKey t \<notin> hits p \<and> coordKey t \<notin> misses p)"

text \<open>The board and the ship list that the canonical fleet is stored as.\<close>

definition lane :: "string \<Rightarrow> string option list" where
  "lane n = [Some n, None, None, None, None]"

definition no_lane :: "string option list" where
  "no_lane = [None, None, None, None, None]"

definition canonical_board :: board where
  "canonical_board =
     [[lane ''Carrier'', lane ''Battleship'', lane ''Cruiser'', lane ''Submarine'', lane ''Destroyer''],
      [lane ''Carrier'', lane ''Battleship'', lane ''Cruiser'', lane ''Submarine'', lane ''Destroyer''],
      [lane ''Carrier'', lane ''Battleship'', lane ''Cruiser'', lane ''Submarine'', no_lane],
      [lane ''Carrier'', lane ''Battleship'', no_lane, no_lane, no_lane],
      [lane ''Carrier'', no_lane, no_lane, no_lane, no_lane]]"

definition canonical_ships :: "ship list" where
  "canonical_ships =
     [\<lparr>ship_name = ''Carrier'',
       ship_cells = [Cell 0 0 0, Cell 1 0 0, Cell 2 0 0, Cell 3 0 0, Cell 4 0 0]\<rparr>,
      \<lparr>ship_name = ''Battleship'', ship_cells = [Cell 0 1 0, Cell 1 1 0, Cell 2 1 0, Cell 3 1 0]\<rparr>,
      \<lparr>ship_name = ''Cruiser'', ship_cells = [Cell 0 2 0, Cell 1 2 0, Cell 2 2 0]\<rparr>,
      \<lparr>ship_name = ''Submarine'', ship_cells = [Cell 0 3 0, Cell 1 3 0, Cell 2 3 0]\<rparr>,
      \<lparr>ship_name = ''Destroyer'', ship_cells = [Cell 0 4 0, Cell 1 4 0]\<rparr>]"

text \<open>A seated player with the canonical fleet and a given shot history.\<close>

definition seated :: "sid \<Rightarrow> key set \<Rightarrow> key set \<Rightarrow> player" where
  "seated s h m = \<lparr>pid = s, ready = True, board = canonical_board, ships = canonical_ships,
                   hits = h, misses = m\<rparr>"

text \<open>The match of ''alice'' and ''bob'' right after both have placed the canonical fleet.\<close>

definition battle :: rooms where
  "battle = [''000001'' \<mapsto> \<lparr>players = [seated ''alice'' {} {}, seated ''bob'' {} {}],
                                turn = Some ''alice''\<rparr>]"

text \<open>The server handling a list of requests one after the other.\<close>

fun serve :: "rooms \<Rightarrow> request list \<Rightarrow> rooms" where
  "serve rs [] = rs"
| "serve rs (req # reqs) = serve (rooms_after (handle rs req)) reqs"

text \<open>
  A match played from \<open>battle\<close>: ''alice'' fires at the cells of the canonical fleet in order,
  ''bob'' answers each shot with a shot into the empty plane z = 4. After sixteen rounds one
  cell of ''bob'''s Destroyer is left.
\<close>

definition alice_shots :: "coord list" where
  "alice_shots = [pt 0 0 0, pt 1 0 0, pt 2 0 0, pt 3 0 0, pt 4 0 0,
                  pt 0 1 0, pt 1 1 0, pt 2 1 0, pt 3 1 0,
                  pt 0 2 0, pt 1 2 0, pt 2 2 0,
                  pt 0 3 0, pt 1 3 0, pt 2 3 0,
                  pt 0 4 0]"

definition bob_shots :: "coord list" where
  "bob_shots = [pt 0 0 4, pt 1 0 4, pt 2 0 4, pt 3 0 4,
                pt 0 1 4, pt 1 1 4, pt 2 1 4, pt 3 1 4,
                pt 0 2 4, pt 1 2 4, pt 2 2 4, pt 3 2 4,
                pt 0 3 4, pt 1 3 4, pt 2 3 4, pt 3 3 4]"

fun rounds :: "coord list \<Rightarrow> coord list \<Rightarrow> request list" where
  "rounds (a # as) (b # bs) =
     Attack ''alice'' ''000001'' a # Attack ''bob'' ''000001'' b # rounds as bs"
| "rounds _ _ = []"

definition endgame :: rooms where
  "endgame = serve battle (rounds alice_shots bob_shots)"

text \<open>
  The match after ''alice'' has missed at (2,2,2) and ''bob'' has answered with a miss at
  the same coordinate: it is ''alice'''s turn again.
\<close>

definition second_round :: rooms where
  "second_round = serve battle [Attack ''alice'' ''000001'' (pt 2 2 2),
                                Attack ''bob'' ''000001'' (pt 2 2 2)]"

text \<open>The match right after ''alice'' has sunk the last ship of ''bob''.\<close>

definition alice_won :: rooms where
  "alice_won = rooms_after (attack endgame ''alice'' ''000001'' (pt 1 4 0))"

text \<open>Targets with a fractional field: 1.5 as z, and 1.5 as x.\<close>

definition half_z :: coord where
  "half_z = Coord (num 0) (num 0) (Fin (3 / 2))"

definition half_x :: coord where
  "half_x = Coord (Fin (3 / 2)) (num 0) (num 0)"

text \<open>
  The invariant of a room: at most two seats, and the turn, when it is set, is the identity of
  a seated player.
\<close>

definition turn_seated :: "room \<Rightarrow> bool" where
  "turn_seated r = (length (players r) \<le> 2
     \<and> (\<forall>s. turn r = Some s \<longrightarrow> s \<in> pid ` set (players r)))"

definition turns_seated :: "rooms \<Rightarrow> bool" where
  "turns_seated rs = (\<forall>code r. rs code = Some r \<longrightarrow> turn_seated r)"

text \<open>The canonical fleet moved to the plane z = 1, and what it is stored as.\<close>

definition shifted_fleet :: "submitted_ship list" where
  "shifted_fleet =
     [entry ''Carrier'' [pt 0 0 1, pt 1 0 1, pt 2 0 1, pt 3 0 1, pt 4 0 1],
      entry ''Battleship'' [pt 0 1 1, pt 1 1 1, pt 2 1 1, pt 3 1 1],
      entry ''Cruiser'' [pt 0 2 1, pt 1 2 1, pt 2 2 1],
      entry ''Submarine'' [pt 0 3 1, pt 1 3 1, pt 2 3 1],
      entry ''Destroyer'' [pt 0 4 1, pt 1 4 1]]"

definition lane1 :: "string \<Rightarrow> string option list" where
  "lane1 n = [None, Some n, None, None, None]"

definition shifted_board :: board where
  "shifted_board =
     [[lane1 ''Carrier'', lane1 ''Battleship'', lane1 ''Cruiser'', lane1 ''Submarine'',
       lane1 ''Destroyer''],
      [lane1 ''Carrier'', lane1 ''Battleship'', lane1 ''Cruiser'', lane1 ''Submarine'',
       lane1 ''Destroyer''],
      [lane1 ''Carrier'', lane1 ''Battleship'', lane1 ''Cruiser'', lane1 ''Submarine'', no_lane],
      [lane1 ''Carrier'', lane1 ''Battleship'', no_lane, no_lane, no_lane],
      [lane1 ''Carrier'', no_lane, no_lane, no_lane, no_lane]]"

definition shifted_ships :: "ship list" where
  "shifted_ships =
     [\<lparr>ship_name = ''Carrier'',
       ship_cells = [Cell 0 0 1, Cell 1 0 1, Cell 2 0 1, Cell 3 0 1, Cell 4 0 1]\<rparr>,
      \<lparr>ship_name = ''Battleship'', ship_cells = [Cell 0 1 1, Cell 1 1 1, Cell 2 1 1, Cell 3 1 1]\<rparr>,
      \<lparr>ship_name = ''Cruiser'', ship_cells = [Cell 0 2 1, Cell 1 2 1, Cell 2 2 1]\<rparr>,
      \<lparr>ship_name = ''Submarine'', ship_cells = [Cell 0 3 1, Cell 1 3 1, Cell 2 3 1]\<rparr>,
      \<lparr>ship_name = ''Destroyer'', ship_cells = [Cell 0 4 1, Cell 1 4 1]\<rparr>]"

text \<open>The match after ''alice'''s first shot, a miss at (2,2,2): the turn is ''bob'''s.\<close>

definition after_first_shot :: rooms where
  "after_first_shot = rooms_after (attack battle ''alice'' ''000001'' (pt 2 2 2))"

text \<open>
  A seat keeps its identity, its ready flag, its board and its ships (its shot history may
  change).
\<close>

definition kept :: "player \<Rightarrow> player \<Rightarrow> bool" where
  "kept p p' = (pid p' = pid p \<and> ready p' = ready p \<and> board p' = board p \<and> ships p' = ships p)"

text \<open>
  The started match after ''bob'' has disconnected: ''alice'' sits alone, is ready and still
  holds the turn.
\<close>

definition bob_gone :: rooms where
  "bob_gone = rooms_after (disconnecting battle ''bob'' [''000001''])"

section \<open>Numbers and normalized cells\<close>

lemma num_inj [simp]: "num i = num j \<longleftrightarrow> i = j"
  by (simp add: num_def)

lemma isInteger_iff: "isInteger v \<longleftrightarrow> (\<exists>i. v = num i)"
proof (cases v)
  case (Fin r)
  show ?thesis
  proof
    assume "isInteger v"
    with Fin have "v = num \<lfloor>r\<rfloor>" by (auto simp: num_def)
    then show "\<exists>i. v = num i" ..
  next
    assume "\<exists>i. v = num i"
    then show "isInteger v" by (auto simp: num_def)
  qed
qed (auto simp: num_def)

lemma int_of_jsnum_num [simp]: "int_of_jsnum (num i) = i"
  by (simp add: num_def)

lemma js_lt_num [simp]: "js_lt (num i) (num j) \<longleftrightarrow> i < j"
  by (simp add: num_def)

lemma js_ge_num [simp]: "js_ge (num i) (num j) \<longleftrightarrow> j \<le> i"
  by (simp add: num_def)

lemma normalizeCell_Inr:
  "normalizeCell c = Inr n \<longleftrightarrow> (c = raw n \<and> inside n)"
proof
  assume a: "normalizeCell c = Inr n"
  then have w: "isInteger (cx c)" "isInteger (cy c)" "isInteger (cz c)"
    by (auto simp: normalizeCell_def split: if_splits)
  then obtain i j k where ijk: "cx c = num i" "cy c = num j" "cz c = num k"
    by (auto simp: isInteger_iff)
  with a show "c = raw n \<and> inside n"
    by (cases c) (auto simp: normalizeCell_def raw_def inside_def BOARD_SIZE_def split: if_splits)
next
  assume "c = raw n \<and> inside n"
  then show "normalizeCell c = Inr n"
    by (cases n) (auto simp: normalizeCell_def raw_def inside_def BOARD_SIZE_def isInteger_iff)
qed

lemma normalizeCell_Inl:
  "normalizeCell c = Inl e \<Longrightarrow>
     (e = NotWholeNumbers \<and> \<not> (isInteger (cx c) \<and> isInteger (cy c) \<and> isInteger (cz c)))
   \<or> (e = ShipOutOfBounds \<and> \<not> (in_range (cx c) \<and> in_range (cy c) \<and> in_range (cz c)))"
  by (auto simp: normalizeCell_def in_range_def BOARD_SIZE_def split: if_splits)

lemma normalizeCells_Inr:
  "normalizeCells cs = Inr ns \<longleftrightarrow> (cs = map raw ns \<and> list_all inside ns)"
proof (induction cs arbitrary: ns)
  case Nil
  then show ?case by auto
next
  case (Cons c cs)
  show ?case
  proof (cases "normalizeCell c")
    case (Inl e)
    then have "\<And>n. \<not> (c = raw n \<and> inside n)"
      using normalizeCell_Inr[of c] by simp
    with Inl show ?thesis by (cases ns) auto
  next
    case (Inr n)
    then have n: "c = raw n" "inside n" using normalizeCell_Inr[of c n] by auto
    have inj: "\<And>m. raw n = raw m \<Longrightarrow> n = m"
      by (simp add: raw_def cell.expand)
    show ?thesis
    proof (cases "normalizeCells cs")
      case (Inl e)
      with Cons.IH have "\<And>ms. \<not> (cs = map raw ms \<and> list_all inside ms)" by simp
      with Inl Inr show ?thesis by (cases ns) auto
    next
      case r: (Inr ms)
      with Cons.IH[of ms] have ms: "cs = map raw ms" "list_all inside ms" by auto
      have "inj raw" by (rule injI) (simp add: raw_def cell.expand)
      then have injm: "\<And>ks. map raw ms = map raw ks \<Longrightarrow> ms = ks"
        by (simp add: inj_map_eq_map)
      show ?thesis using Inr r n ms inj injm
        by (cases ns) auto
    qed
  qed
qed

section \<open>The line check\<close>

lemma set_size_card: "set_size vs = card (set vs)"
  by (simp add: set_size_def length_remdups_card_conv)

lemma set_size_gt1: "set_size vs > 1 \<longleftrightarrow> (\<exists>u\<in>set vs. \<exists>w\<in>set vs. u \<noteq> w)"
proof -
  have "card (set vs) > 1 \<longleftrightarrow> (\<exists>u\<in>set vs. \<exists>w\<in>set vs. u \<noteq> w)"
  proof
    assume "1 < card (set vs)"
    then obtain u w where "u \<in> set vs" "w \<in> set vs" "u \<noteq> w"
      by (metis List.finite_set One_nat_def card_le_Suc0_iff_eq not_less)
    then show "\<exists>u\<in>set vs. \<exists>w\<in>set vs. u \<noteq> w" by blast
  next
    assume "\<exists>u\<in>set vs. \<exists>w\<in>set vs. u \<noteq> w"
    then show "1 < card (set vs)"
      by (metis List.finite_set One_nat_def card_le_Suc0_iff_eq not_less)
  qed
  then show ?thesis by (simp add: set_size_card)
qed

lemma set_size_varies: "set_size (map (axis_of a) ns) > 1 \<longleftrightarrow> varies a ns"
  unfolding set_size_gt1 varies_def by auto

lemma set_size_varies': "Suc 0 < set_size (map (axis_of a) ns) \<longleftrightarrow> varies a ns"
  using set_size_varies[of a ns] by simp

lemma set_size_1: "vs \<noteq> [] \<Longrightarrow> set_size vs = 1 \<longleftrightarrow> \<not> set_size vs > 1"
proof -
  assume "vs \<noteq> []"
  then have "card (set vs) > 0" by (simp add: card_gt_0_iff)
  then show ?thesis by (auto simp: set_size_card)
qed

lemma set_size_1': "vs \<noteq> [] \<Longrightarrow> set_size vs \<noteq> Suc 0 \<longleftrightarrow> Suc 0 < set_size vs"
  using set_size_1[of vs] by auto

lemma varyingAxes_single:
  "varyingAxes ns = [a] \<longleftrightarrow> (varies a ns \<and> (\<forall>k. k \<noteq> a \<longrightarrow> \<not> varies k ns))"
proof -
  have all: "\<And>P. (\<forall>k. P k) \<longleftrightarrow> P AxisX \<and> P AxisY \<and> P AxisZ"
    by (metis axis.exhaust)
  show ?thesis
    by (cases a) (auto simp: varyingAxes_def axes_def set_size_varies' all)
qed

lemma consecutive_upto: "consecutive (v # vs) \<longleftrightarrow> v # vs = [v .. v + int (length vs)]"
proof (induction vs arbitrary: v)
  case Nil
  then show ?case by simp
next
  case (Cons w vs)
  have u: "[v .. v + int (length (w # vs))] = v # [v + 1 .. v + 1 + int (length vs)]"
    by (subst upto_rec1) (auto simp: algebra_simps)
  have h: "[v + 1 .. v + 1 + int (length vs)] = (v + 1) # [v + 1 + 1 .. v + 1 + int (length vs)]"
    by (subst upto_rec1) auto
  show ?case
  proof (cases "w = v + 1")
    case True
    then show ?thesis using u Cons.IH[of w] by simp
  next
    case False
    then have "w # vs \<noteq> [v + 1 .. v + 1 + int (length vs)]"
      by (subst h) simp
    with False u show ?thesis by simp
  qed
qed

lemma interval_Suc: "{m ..< m + int (Suc n)} = {m .. m + int n}"
  by auto

lemma consecutive_sort:
  "consecutive (sort vs) \<longleftrightarrow> (distinct vs \<and> (\<exists>m. set vs = {m ..< m + int (length vs)}))"
proof (cases "sort vs")
  case Nil
  then have "vs = []" by (metis length_0_conv length_sort)
  then show ?thesis by simp
next
  case (Cons v ws)
  have len: "length vs = Suc (length ws)" by (metis Cons length_Cons length_sort)
  show ?thesis
  proof
    assume "consecutive (sort vs)"
    then have eq: "sort vs = [v .. v + int (length ws)]"
      using Cons consecutive_upto by simp
    have "distinct (sort vs)" by (simp only: eq distinct_upto)
    then have d: "distinct vs" by simp
    have "set (sort vs) = {v .. v + int (length ws)}" by (simp only: eq set_upto)
    then have "set vs = {v ..< v + int (length vs)}"
      by (simp only: len interval_Suc set_sort)
    with d show "distinct vs \<and> (\<exists>m. set vs = {m ..< m + int (length vs)})" by blast
  next
    assume "distinct vs \<and> (\<exists>m. set vs = {m ..< m + int (length vs)})"
    then obtain m where d: "distinct vs" and s: "set vs = {m ..< m + int (length vs)}" by blast
    from s have s': "set (sort vs) = set [m .. m + int (length ws)]"
      by (simp only: len interval_Suc set_sort set_upto)
    have "sorted (sort vs)" "distinct (sort vs)" using d by simp_all
    moreover have "sorted [m .. m + int (length ws)]" "distinct [m .. m + int (length ws)]"
      by simp_all
    ultimately have e: "sort vs = [m .. m + int (length ws)]"
      using s' by (rule sorted_distinct_set_unique)
    have "[m .. m + int (length ws)] = m # [m + 1 .. m + int (length ws)]"
      by (subst upto_rec1) auto
    with e Cons have "v = m" by simp
    with e Cons have "v # ws = [v .. v + int (length ws)]" by simp
    then have "consecutive (v # ws)" using consecutive_upto[of v ws] by blast
    then show "consecutive (sort vs)" by (simp only: Cons)
  qed
qed

lemma checkLine_None:
  assumes "length ns > 1"
  shows "checkLine ns = None \<longleftrightarrow> line_ok ns"
proof -
  have ne: "\<And>k. map (axis_of k) ns \<noteq> []" using assms by auto
  have other: "\<And>a. varyingAxes ns = [a] \<Longrightarrow>
      \<not> list_ex (\<lambda>k. set_size (map (axis_of k) ns) \<noteq> 1) (filter (\<lambda>k. k \<noteq> a) axes)"
    by (auto simp: list_ex_iff set_size_1'[OF ne] set_size_varies' varyingAxes_single)
  show ?thesis
  proof
    assume n: "checkLine ns = None"
    then obtain a where a: "varyingAxes ns = [a]"
      using assms by (auto simp: checkLine_def split: list.splits if_splits)
    with n assms have "consecutive (sort (map (axis_of a) ns))"
      by (auto simp: checkLine_def split: if_splits)
    then have "run a ns" by (simp add: consecutive_sort run_def)
    with a show "line_ok ns" unfolding line_ok_def varyingAxes_single by blast
  next
    assume "line_ok ns"
    then obtain a where a: "varyingAxes ns = [a]" and r: "run a ns"
      unfolding line_ok_def varyingAxes_single by blast
    from r have "consecutive (sort (map (axis_of a) ns))"
      by (simp add: consecutive_sort run_def)
    with a other[OF a] assms show "checkLine ns = None"
      by (simp add: checkLine_def)
  qed
qed

lemma checkLine_Some:
  assumes "length ns > 1" "checkLine ns = Some e"
  shows "(e = NotStraightLine \<and> \<not> (\<exists>a. varies a ns \<and> (\<forall>k. k \<noteq> a \<longrightarrow> \<not> varies k ns)))
       \<or> (e = NotConsecutive \<and> (\<exists>a. varies a ns \<and> (\<forall>k. k \<noteq> a \<longrightarrow> \<not> varies k ns) \<and> \<not> run a ns))"
proof (cases "\<exists>a. varyingAxes ns = [a]")
  case True
  then obtain a where a: "varyingAxes ns = [a]" by blast
  have ne: "\<And>k. map (axis_of k) ns \<noteq> []" using assms by auto
  have other: "\<not> list_ex (\<lambda>k. set_size (map (axis_of k) ns) \<noteq> 1) (filter (\<lambda>k. k \<noteq> a) axes)"
    using a by (auto simp: list_ex_iff set_size_1'[OF ne] set_size_varies' varyingAxes_single)
  from assms a other have "e = NotConsecutive" "\<not> consecutive (sort (map (axis_of a) ns))"
    by (auto simp: checkLine_def split: if_splits)
  then have "e = NotConsecutive \<and> \<not> run a ns" by (simp add: consecutive_sort run_def)
  with a show ?thesis unfolding varyingAxes_single by blast
next
  case False
  with assms have "e = NotStraightLine"
    by (auto simp: checkLine_def split: list.splits if_splits)
  with False show ?thesis unfolding varyingAxes_single by blast
qed

section \<open>Keys and the board\<close>

lemma cellKey_inj [simp]: "cellKey c = cellKey d \<longleftrightarrow> c = d"
  by (cases c; cases d) (simp add: cellKey_def)

lemma coordKey_raw [simp]: "coordKey (raw c) = cellKey c"
  by (simp add: coordKey_def raw_def cellKey_def)

lemma raw_inj [simp]: "raw c = raw d \<longleftrightarrow> c = d"
  by (cases c; cases d) (simp add: raw_def)

lemma cube_empty: "cube createEmptyBoard"
  by (simp add: cube_def createEmptyBoard_def BOARD_SIZE_def)

lemma board_at_empty: "inside c \<Longrightarrow> board_at createEmptyBoard c = None"
proof -
  assume "inside c"
  then have "nat (cell_x c) < 5" "nat (cell_y c) < 5" "nat (cell_z c) < 5"
    by (auto simp: inside_def)
  then show ?thesis
    by (simp add: board_at_def createEmptyBoard_def BOARD_SIZE_def)
qed

lemma cube_nth:
  assumes "cube b" "i < 5" "j < 5"
  shows "length b = 5" "length (b ! i) = 5" "length (b ! i ! j) = 5"
proof -
  show l: "length b = 5" using assms by (simp add: cube_def)
  have m: "b ! i \<in> set b" using assms l by simp
  have all: "\<forall>p\<in>set b. length p = 5 \<and> (\<forall>l\<in>set p. length l = 5)"
    using assms(1) by (simp add: cube_def)
  from all m show l2: "length (b ! i) = 5" by blast
  then have "b ! i ! j \<in> set (b ! i)" using assms by simp
  with all m show "length (b ! i ! j) = 5" by blast
qed

lemma cube_board_set:
  assumes "cube b" "inside c"
  shows "cube (board_set b c n)"
proof -
  let ?i = "nat (cell_x c)" and ?j = "nat (cell_y c)" and ?k = "nat (cell_z c)"
  have ij: "?i < 5" "?j < 5" using assms(2) by (auto simp: inside_def)
  note L = cube_nth[OF assms(1) ij]
  have "\<And>p. p \<in> set (b[?i := (b ! ?i)[?j := (b ! ?i ! ?j)[?k := Some n]]]) \<Longrightarrow>
        length p = 5 \<and> (\<forall>l\<in>set p. length l = 5)"
  proof -
    fix p assume "p \<in> set (b[?i := (b ! ?i)[?j := (b ! ?i ! ?j)[?k := Some n]]])"
    then have "p \<in> set b \<or> p = (b ! ?i)[?j := (b ! ?i ! ?j)[?k := Some n]]"
      using set_update_subset_insert by fastforce
    then show "length p = 5 \<and> (\<forall>l\<in>set p. length l = 5)"
    proof
      assume "p \<in> set b" then show ?thesis using assms(1) by (simp add: cube_def)
    next
      assume p: "p = (b ! ?i)[?j := (b ! ?i ! ?j)[?k := Some n]]"
      have "\<And>l. l \<in> set p \<Longrightarrow> length l = 5"
      proof -
        fix l assume "l \<in> set p"
        then have "l \<in> set (b ! ?i) \<or> l = (b ! ?i ! ?j)[?k := Some n]"
          unfolding p using set_update_subset_insert by fastforce
        moreover have "b ! ?i \<in> set b" using L ij by simp
        ultimately show "length l = 5" using assms(1) L by (auto simp: cube_def)
      qed
      then show ?thesis using p L by simp
    qed
  qed
  then show ?thesis using L by (simp add: cube_def board_set_def Let_def)
qed

lemma board_at_board_set:
  assumes "cube b" "inside c" "inside d"
  shows "board_at (board_set b c n) d = (if d = c then Some n else board_at b d)"
proof -
  have c: "nat (cell_x c) < 5" "nat (cell_y c) < 5" "nat (cell_z c) < 5"
    using assms(2) by (auto simp: inside_def)
  have d: "nat (cell_x d) < 5" "nat (cell_y d) < 5" "nat (cell_z d) < 5"
    using assms(3) by (auto simp: inside_def)
  note Lc = cube_nth[OF assms(1) c(1,2)]
  have eq: "d = c \<longleftrightarrow> nat (cell_x d) = nat (cell_x c) \<and> nat (cell_y d) = nat (cell_y c)
                    \<and> nat (cell_z d) = nat (cell_z c)"
    using assms(2,3) by (cases c; cases d) (auto simp: inside_def)
  show ?thesis
    unfolding eq using Lc c d
    by (auto simp: board_at_def board_set_def Let_def nth_list_update)
qed

lemma cube_mark: "cube b \<Longrightarrow> list_all inside ns \<Longrightarrow> cube (mark name b ns)"
  by (induction ns arbitrary: b) (simp_all add: mark_def cube_board_set)

lemma board_at_mark:
  "cube b \<Longrightarrow> list_all inside ns \<Longrightarrow> inside d \<Longrightarrow>
   board_at (mark name b ns) d = (if d \<in> set ns then Some name else board_at b d)"
proof (induction ns arbitrary: b)
  case Nil
  then show ?case by (simp add: mark_def)
next
  case (Cons c ns)
  have "mark name b (c # ns) = mark name (board_set b c name) ns" by (simp add: mark_def)
  moreover have "cube (board_set b c name)" using Cons.prems by (simp add: cube_board_set)
  ultimately show ?case using Cons by (simp add: board_at_board_set)
qed

lemma markCells_Inr:
  "markCells name (b, occ) ns = Inr r \<longleftrightarrow>
     (distinct ns \<and> cellKey ` set ns \<inter> occ = {} \<and> r = (mark name b ns, occ \<union> cellKey ` set ns))"
proof (induction ns arbitrary: b occ)
  case Nil
  then show ?case by (auto simp: mark_def)
next
  case (Cons c ns)
  show ?case
  proof (cases "cellKey c \<in> occ")
    case True
    then show ?thesis by auto
  next
    case False
    have m: "mark name b (c # ns) = mark name (board_set b c name) ns" by (simp add: mark_def)
    show ?thesis using False Cons.IH[of "board_set b c name" "insert (cellKey c) occ"]
      by (auto simp: m)
  qed
qed

lemma markCells_Inl:
  "markCells name (b, occ) ns = Inl e \<Longrightarrow> e = ShipsOverlap"
  by (induction ns arbitrary: b occ) (auto split: if_splits)

section \<open>Placing one ship\<close>

lemma catalog_length: "map_of SHIPS n = Some k \<Longrightarrow> k > 1"
  by (auto simp: SHIPS_def split: if_splits)

lemma run_distinct: "run a ns \<Longrightarrow> distinct ns"
  by (simp add: run_def distinct_map)

lemma line_ok_distinct: "line_ok ns \<Longrightarrow> distinct ns"
  by (auto simp: line_ok_def dest: run_distinct)

lemma placeShip_fits:
  assumes "fits st s n ns"
  shows "placeShip st s = Inr (placed st n ns)"
proof -
  from assms have f: "sub_name s = Some n" "sub_cells s = Some (map raw ns)"
    "map_of SHIPS n = Some (length ns)" "n \<notin> pl_seenNames st" "list_all inside ns"
    "line_ok ns" "cellKey ` set ns \<inter> pl_occupied st = {}"
    by (simp_all add: fits_def)
  have len: "length ns > 1" using catalog_length[OF f(3)] .
  have 1: "normalizeCells (map raw ns) = Inr ns" using f(5) by (simp add: normalizeCells_Inr)
  have 2: "checkLine ns = None" using len f(6) by (simp add: checkLine_None)
  have 3: "markCells n (pl_board st, pl_occupied st) ns
           = Inr (mark n (pl_board st) ns, pl_occupied st \<union> cellKey ` set ns)"
    using f(7) line_ok_distinct[OF f(6)] by (simp add: markCells_Inr)
  show ?thesis using len
    by (auto simp: placeShip_def f 1 2 3 placed_def)
qed

lemma placeShip_Inr:
  assumes "placeShip st s = Inr st'"
  shows "\<exists>n ns. fits st s n ns \<and> st' = placed st n ns"
proof -
  from assms obtain n cells where nc: "sub_name s = Some n" "sub_cells s = Some cells"
    by (auto simp: placeShip_def split: option.splits)
  from assms nc obtain k where k: "map_of SHIPS n = Some k"
    by (auto simp: placeShip_def split: option.splits)
  from assms nc k have g: "n \<notin> pl_seenNames st" "length cells = k"
    by (auto simp: placeShip_def split: if_splits)
  from assms nc k g obtain ns where ns: "normalizeCells cells = Inr ns"
    by (auto simp: placeShip_def split: if_splits sum.splits)
  then have r: "cells = map raw ns" "list_all inside ns" by (simp_all add: normalizeCells_Inr)
  from assms nc k g ns have cl: "checkLine ns = None"
    by (auto simp: placeShip_def split: if_splits option.splits)
  have len: "length ns > 1" using catalog_length[OF k] g r by simp
  then have lo: "line_ok ns" using cl by (simp add: checkLine_None)
  from assms nc k g ns cl obtain b occ where
    m: "markCells n (pl_board st, pl_occupied st) ns = Inr (b, occ)"
    and st': "st' = \<lparr>pl_board = b, pl_occupied = occ, pl_seenNames = insert n (pl_seenNames st),
          pl_sanitizedShips = pl_sanitizedShips st @ [\<lparr>ship_name = n, ship_cells = ns\<rparr>]\<rparr>"
    by (auto simp: placeShip_def split: if_splits sum.splits prod.splits)
  from m have mm: "cellKey ` set ns \<inter> pl_occupied st = {}" "b = mark n (pl_board st) ns"
    "occ = pl_occupied st \<union> cellKey ` set ns"
    by (simp_all add: markCells_Inr)
  have "fits st s n ns" using nc k g r lo mm by (simp add: fits_def)
  moreover have "st' = placed st n ns" using st' mm by (simp add: placed_def)
  ultimately show ?thesis by blast
qed

section \<open>From normalized cells to submitted coordinates\<close>

lemma coord_axis_raw [simp]: "coord_axis a (raw c) = num (axis_of a c)"
  by (cases a) (simp_all add: raw_def)

lemma spec_varies_raw [simp]: "spec_varies a (map raw ns) = varies a ns"
  by (auto simp: spec_varies_def varies_def)

lemma spec_run_raw [simp]: "spec_run a (map raw ns) = run a ns"
proof -
  have inj: "inj num" by (rule injI) simp
  have 1: "map (coord_axis a) (map raw ns) = map num (map (axis_of a) ns)" by simp
  have 2: "distinct (map num (map (axis_of a) ns)) = distinct (map (axis_of a) ns)"
    using inj by (auto simp: distinct_map inj_on_def)
  have 3: "\<And>m. (set (map num (map (axis_of a) ns)) = num ` {m ..< m + int (length ns)})
         = (set (map (axis_of a) ns) = {m ..< m + int (length ns)})"
    using inj by (simp only: set_map inj_image_eq_iff)
  show ?thesis unfolding spec_run_def run_def by (simp only: 1 2 3 length_map)
qed

lemma one_axis_raw [simp]:
  "one_axis (map raw ns) a = (varies a ns \<and> (\<forall>k. k \<noteq> a \<longrightarrow> \<not> varies k ns))"
  by (simp add: one_axis_def)

lemma spec_line_raw: "length ns > 1 \<Longrightarrow> spec_line (map raw ns) = line_ok ns"
  by (simp add: spec_line_def line_ok_def)

lemma in_range_num [simp]: "in_range (num i) = (0 \<le> i \<and> i < 5)"
  by (auto simp: in_range_def BOARD_SIZE_def)

lemma whole_iff: "whole v = isInteger v"
  by (simp add: whole_def isInteger_iff)

lemma coord_ok_iff:
  "(in_range (cx c) \<and> in_range (cy c) \<and> in_range (cz c)) = (\<exists>n. c = raw n \<and> inside n)"
proof
  assume "in_range (cx c) \<and> in_range (cy c) \<and> in_range (cz c)"
  then obtain i j k where "cx c = num i" "0 \<le> i" "i < 5" "cy c = num j" "0 \<le> j" "j < 5"
     "cz c = num k" "0 \<le> k" "k < 5"
    by (auto simp: in_range_def BOARD_SIZE_def)
  then have "c = raw (Cell i j k) \<and> inside (Cell i j k)"
    by (cases c) (simp add: raw_def inside_def)
  then show "\<exists>n. c = raw n \<and> inside n" ..
next
  assume "\<exists>n. c = raw n \<and> inside n"
  then show "in_range (cx c) \<and> in_range (cy c) \<and> in_range (cz c)"
    by (auto simp: raw_def inside_def)
qed

lemma coords_ok_iff:
  "(\<forall>c\<in>set cs. in_range (cx c) \<and> in_range (cy c) \<and> in_range (cz c))
     = (\<exists>ns. cs = map raw ns \<and> list_all inside ns)"
proof (induction cs)
  case Nil
  then show ?case by simp
next
  case (Cons c cs)
  show ?case
  proof
    assume a: "\<forall>c\<in>set (c # cs). in_range (cx c) \<and> in_range (cy c) \<and> in_range (cz c)"
    then obtain n where n: "c = raw n" "inside n" using coord_ok_iff[of c] by auto
    from a Cons obtain ns where ns: "cs = map raw ns" "list_all inside ns" by auto
    have "c # cs = map raw (n # ns) \<and> list_all inside (n # ns)" using n ns by simp
    then show "\<exists>ns. c # cs = map raw ns \<and> list_all inside ns" ..
  next
    assume "\<exists>ns. c # cs = map raw ns \<and> list_all inside ns"
    then obtain n ns where "c = raw n" "inside n" "cs = map raw ns" "list_all inside ns"
      by (auto simp: Cons_eq_map_conv)
    with Cons coord_ok_iff[of c]
    show "\<forall>c\<in>set (c # cs). in_range (cx c) \<and> in_range (cy c) \<and> in_range (cz c)"
      by auto
  qed
qed

lemma ship_ok_iff:
  "ship_ok s = (\<exists>n ns. sub_name s = Some n \<and> sub_cells s = Some (map raw ns)
       \<and> map_of SHIPS n = Some (length ns) \<and> list_all inside ns \<and> line_ok ns)"
proof
  assume ok: "ship_ok s"
  then obtain n k where nk: "sub_name s = Some n" "map_of SHIPS n = Some k" "length (cells_of s) = k"
    by (auto simp: ship_ok_def spec_count_def)
  have k: "k > 1" using catalog_length[OF nk(2)] .
  with nk obtain cs where cs: "sub_cells s = Some cs" "cells_of s = cs"
    by (cases "sub_cells s") (auto simp: cells_of_def)
  from ok cs obtain ns where ns: "cs = map raw ns" "list_all inside ns"
    using coords_ok_iff[of cs] by (auto simp: ship_ok_def spec_coords_def)
  have len: "length ns > 1" using k nk cs ns by simp
  from ok cs ns have "line_ok ns" using spec_line_raw[OF len] by (simp add: ship_ok_def)
  with nk cs ns show "\<exists>n ns. sub_name s = Some n \<and> sub_cells s = Some (map raw ns)
       \<and> map_of SHIPS n = Some (length ns) \<and> list_all inside ns \<and> line_ok ns"
    by auto
next
  assume "\<exists>n ns. sub_name s = Some n \<and> sub_cells s = Some (map raw ns)
       \<and> map_of SHIPS n = Some (length ns) \<and> list_all inside ns \<and> line_ok ns"
  then obtain n ns where f: "sub_name s = Some n" "sub_cells s = Some (map raw ns)"
       "map_of SHIPS n = Some (length ns)" "list_all inside ns" "line_ok ns" by blast
  have c: "cells_of s = map raw ns" using f by (simp add: cells_of_def)
  have len: "length ns > 1" using catalog_length[OF f(3)] .
  have "spec_count s" using f c by (simp add: spec_count_def)
  moreover have "spec_coords s" unfolding spec_coords_def c using coords_ok_iff[of "map raw ns"] f(4) by blast
  moreover have "spec_line (cells_of s)" using f(5) spec_line_raw[OF len] c by simp
  ultimately show "ship_ok s" by (simp add: ship_ok_def)
qed

section \<open>Placing a fleet\<close>

lemma coordKey_inj [simp]: "coordKey c = coordKey d \<longleftrightarrow> c = d"
  by (cases c; cases d) (simp add: coordKey_def)

lemma keys_raw: "coordKey ` set (map raw ns) = cellKey ` set ns"
  by (auto simp: image_iff)

lemma no_overlap_Cons:
  "spec_no_overlap (s # ss) \<longleftrightarrow>
     ((\<forall>t\<in>set ss. set (cells_of s) \<inter> set (cells_of t) = {}) \<and> spec_no_overlap ss)"
proof
  assume a: "spec_no_overlap (s # ss)"
  have 1: "\<forall>t\<in>set ss. set (cells_of s) \<inter> set (cells_of t) = {}"
  proof (intro ballI, rule ccontr)
    fix t assume t: "t \<in> set ss" and "set (cells_of s) \<inter> set (cells_of t) \<noteq> {}"
    then obtain c where c: "c \<in> set (cells_of s)" "c \<in> set (cells_of t)" by blast
    from t c have "filter (\<lambda>s. c \<in> set (cells_of s)) ss \<noteq> []"
      by (auto simp: filter_empty_conv)
    then have "length (filter (\<lambda>s. c \<in> set (cells_of s)) ss) \<ge> 1"
      by (cases "filter (\<lambda>s. c \<in> set (cells_of s)) ss") auto
    with c have "length (filter (\<lambda>s. c \<in> set (cells_of s)) (s # ss)) \<ge> 2" by simp
    with a show False unfolding spec_no_overlap_def
      by (metis Suc_1 not_less_eq_eq)
  qed
  have 2: "spec_no_overlap ss"
    unfolding spec_no_overlap_def
  proof
    fix c
    have "length (filter (\<lambda>s. c \<in> set (cells_of s)) ss)
          \<le> length (filter (\<lambda>s. c \<in> set (cells_of s)) (s # ss))" by simp
    also have "\<dots> \<le> 1" using a unfolding spec_no_overlap_def by blast
    finally show "length (filter (\<lambda>s. c \<in> set (cells_of s)) ss) \<le> 1" .
  qed
  from 1 2 show "(\<forall>t\<in>set ss. set (cells_of s) \<inter> set (cells_of t) = {}) \<and> spec_no_overlap ss" ..
next
  assume a: "(\<forall>t\<in>set ss. set (cells_of s) \<inter> set (cells_of t) = {}) \<and> spec_no_overlap ss"
  show "spec_no_overlap (s # ss)"
    unfolding spec_no_overlap_def
  proof
    fix c
    show "length (filter (\<lambda>s. c \<in> set (cells_of s)) (s # ss)) \<le> 1"
    proof (cases "c \<in> set (cells_of s)")
      case True
      with a have "filter (\<lambda>s. c \<in> set (cells_of s)) ss = []"
        by (auto simp: filter_empty_conv)
      with True show ?thesis by simp
    next
      case False
      with a show ?thesis by (simp add: spec_no_overlap_def)
    qed
  qed
qed

lemma fits_iff:
  "fits st s n ns \<longleftrightarrow> (sub_name s = Some n \<and> sub_cells s = Some (map raw ns)
       \<and> map_of SHIPS n = Some (length ns) \<and> list_all inside ns \<and> line_ok ns
       \<and> n \<notin> pl_seenNames st \<and> cellKey ` set ns \<inter> pl_occupied st = {})"
  by (auto simp: fits_def)

lemma compat_Cons:
  "compat st (s # ss) \<longleftrightarrow> (\<exists>n ns. fits st s n ns \<and> compat (placed st n ns) ss)"
proof
  assume c: "compat st (s # ss)"
  then have "ship_ok s" by (simp add: compat_def)
  then obtain n ns where f: "sub_name s = Some n" "sub_cells s = Some (map raw ns)"
       "map_of SHIPS n = Some (length ns)" "list_all inside ns" "line_ok ns"
    unfolding ship_ok_iff by blast
  have cs: "cells_of s = map raw ns" using f by (simp add: cells_of_def)
  have fit: "fits st s n ns"
    using c f cs keys_raw[of ns] by (simp add: fits_iff compat_def)
  have no: "\<forall>t\<in>set ss. set (cells_of s) \<inter> set (cells_of t) = {}" "spec_no_overlap ss"
    using c by (simp_all add: compat_def no_overlap_Cons)
  have k: "\<forall>t\<in>set ss. coordKey ` set (cells_of t) \<inter> cellKey ` set ns = {}"
  proof (intro ballI)
    fix t assume "t \<in> set ss"
    with no have "set (cells_of s) \<inter> set (cells_of t) = {}" by blast
    then have "coordKey ` set (cells_of t) \<inter> coordKey ` set (cells_of s) = {}"
      by (auto simp: image_iff)
    then show "coordKey ` set (cells_of t) \<inter> cellKey ` set ns = {}"
      by (simp only: cs keys_raw)
  qed
  have "sub_name s \<notin> sub_name ` set ss" using c by (simp add: compat_def)
  then have nm: "\<forall>t\<in>set ss. sub_name t \<noteq> Some n" using f(1) by (metis imageI)
  have o: "\<forall>t\<in>set ss. coordKey ` set (cells_of t) \<inter> pl_occupied st = {}"
    using c by (simp add: compat_def)
  have o': "\<forall>t\<in>set ss. coordKey ` set (cells_of t)
              \<inter> (pl_occupied st \<union> cellKey ` set ns) = {}"
    using o k by blast
  have s': "\<forall>t\<in>set ss. \<forall>m. sub_name t = Some m \<longrightarrow> m \<notin> insert n (pl_seenNames st)"
    using c nm by (auto simp: compat_def)
  have "compat (placed st n ns) ss"
    using c no o' s' by (simp add: compat_def placed_def)
  with fit show "\<exists>n ns. fits st s n ns \<and> compat (placed st n ns) ss" by blast
next
  assume "\<exists>n ns. fits st s n ns \<and> compat (placed st n ns) ss"
  then obtain n ns where fit: "fits st s n ns" and c: "compat (placed st n ns) ss" by blast
  from fit have f: "sub_name s = Some n" "sub_cells s = Some (map raw ns)"
       "map_of SHIPS n = Some (length ns)" "list_all inside ns" "line_ok ns"
       "n \<notin> pl_seenNames st" "cellKey ` set ns \<inter> pl_occupied st = {}"
    by (simp_all add: fits_iff)
  have cs: "cells_of s = map raw ns" using f by (simp add: cells_of_def)
  have ok: "ship_ok s" unfolding ship_ok_iff using f by blast
  have nm: "\<forall>t\<in>set ss. sub_name t \<noteq> Some n" using c by (auto simp: compat_def placed_def)
  have ko: "\<forall>t\<in>set ss. coordKey ` set (cells_of t)
              \<inter> (pl_occupied st \<union> cellKey ` set ns) = {}"
    using c by (simp add: compat_def placed_def)
  have k: "\<forall>t\<in>set ss. coordKey ` set (cells_of t) \<inter> cellKey ` set ns = {}"
    using ko by blast
  have no: "\<forall>t\<in>set ss. set (cells_of s) \<inter> set (cells_of t) = {}"
  proof (intro ballI)
    fix t assume "t \<in> set ss"
    with k have "coordKey ` set (cells_of t) \<inter> coordKey ` set (cells_of s) = {}"
      by (simp only: cs keys_raw)
    then show "set (cells_of s) \<inter> set (cells_of t) = {}" by blast
  qed
  have occ: "coordKey ` set (cells_of s) \<inter> pl_occupied st = {}"
    using f(7) by (simp only: cs keys_raw)
  have d: "distinct (map sub_name (s # ss))"
    using c nm f(1) by (auto simp: compat_def)
  have o: "\<forall>t\<in>set ss. coordKey ` set (cells_of t) \<inter> pl_occupied st = {}"
    using ko by blast
  have s': "\<forall>t\<in>set ss. \<forall>m. sub_name t = Some m \<longrightarrow> m \<notin> pl_seenNames st"
    using c by (simp add: compat_def placed_def)
  have so: "spec_no_overlap (s # ss)"
    unfolding no_overlap_Cons using no c by (simp add: compat_def)
  have oks: "\<forall>t\<in>set ss. ship_ok t" using c by (simp add: compat_def)
  show "compat st (s # ss)"
    unfolding compat_def using ok oks d so occ o s' f(1,6) by simp
qed

lemma placeAll_Inr_iff: "(\<exists>st'. placeAll st ss = Inr st') \<longleftrightarrow> compat st ss"
proof (induction ss arbitrary: st)
  case Nil
  then show ?case by (simp add: compat_def spec_no_overlap_def)
next
  case (Cons s ss)
  show ?case
  proof
    assume "\<exists>st'. placeAll st (s # ss) = Inr st'"
    then obtain st' where a: "placeAll st (s # ss) = Inr st'" ..
    then obtain st1 where 1: "placeShip st s = Inr st1" and 2: "placeAll st1 ss = Inr st'"
      by (auto split: sum.splits)
    from placeShip_Inr[OF 1] obtain n ns where f: "fits st s n ns" "st1 = placed st n ns"
      by blast
    from 2 f Cons.IH[of "placed st n ns"] have "compat (placed st n ns) ss" by blast
    with f show "compat st (s # ss)" unfolding compat_Cons by blast
  next
    assume "compat st (s # ss)"
    then obtain n ns where f: "fits st s n ns" and c: "compat (placed st n ns) ss"
      unfolding compat_Cons by blast
    from c Cons.IH[of "placed st n ns"] obtain st' where "placeAll (placed st n ns) ss = Inr st'"
      by blast
    with placeShip_fits[OF f] have "placeAll st (s # ss) = Inr st'" by simp
    then show "\<exists>st'. placeAll st (s # ss) = Inr st'" ..
  qed
qed

section \<open>Rejected placements change nothing\<close>

lemma isInteger_num [simp]: "isInteger (num i)"
  by (simp add: num_def)

lemma normalizeCell_pt [simp]:
  "normalizeCell (pt i j k) =
     (if i < 0 \<or> j < 0 \<or> k < 0 \<or> i \<ge> 5 \<or> j \<ge> 5 \<or> k \<ge> 5 then Inl ShipOutOfBounds
      else Inr (Cell i j k))"
  by (simp add: normalizeCell_def pt_def BOARD_SIZE_def)

lemma validate_crooked: "validateShips (Some crooked_fleet) = Inl NotStraightLine"
  by (simp add: validateShips_def crooked_fleet_def canonical_fleet_def entry_def SHIPS_def
      emptyPlacement_def placeShip_def checkLine_def varyingAxes_def axes_def set_size_def)

lemma lobby_eq: "lobby = [''000001'' \<mapsto> \<lparr>players = [newPlayer ''alice''], turn = None\<rparr>]"
  by (simp add: lobby_def createGame_def Let_def)

text \<open>
  C8. A rejected \<^verbatim>\<open>placeShips\<close> changes nothing: whenever the reply is an error the rooms are
  exactly as before and nothing is broadcast, so the submitting player's board, ships and ready
  flag are untouched; and every failure of the validation is answered with an error.
\<close>

theorem placeShips_rejection_atomic:
  "(reply (placeShips rs s code submitted) = Error e \<longrightarrow>
      rooms_after (placeShips rs s code submitted) = rs
      \<and> emitted (placeShips rs s code submitted) = [])
   \<and> (validateShips submitted = Inl e \<longrightarrow>
      (\<exists>e'. reply (placeShips rs s code submitted) = Error e'))"
  by (auto simp: placeShips_def reject_def Let_def split: option.splits sum.splits)

theorem placeShips_rejection_atomic_witness:
  "reply (placeShips lobby ''alice'' ''000001'' (Some crooked_fleet)) = Error NotStraightLine
   \<and> validateShips (Some crooked_fleet) = Inl NotStraightLine
   \<and> rooms_after (placeShips lobby ''alice'' ''000001'' (Some crooked_fleet)) = lobby
   \<and> emitted (placeShips lobby ''alice'' ''000001'' (Some crooked_fleet)) = []"
proof -
  have r: "reply (placeShips lobby ''alice'' ''000001'' (Some crooked_fleet)) = Error NotStraightLine"
    by (simp add: placeShips_def lobby_eq getPlayer_def newPlayer_def
        validate_crooked reject_def)
  with placeShips_rejection_atomic[of lobby "''alice''" "''000001''" "Some crooked_fleet" NotStraightLine]
  show ?thesis by (simp add: validate_crooked)
qed

section \<open>Rejection reasons\<close>

lemma normalizeCells_Inl:
  "normalizeCells cs = Inl e \<Longrightarrow>
     (e = NotWholeNumbers \<and> (\<exists>c\<in>set cs. \<not> (whole (cx c) \<and> whole (cy c) \<and> whole (cz c))))
   \<or> (e = ShipOutOfBounds \<and> (\<exists>c\<in>set cs. \<not> (in_range (cx c) \<and> in_range (cy c) \<and> in_range (cz c))))"
proof (induction cs)
  case Nil
  then show ?case by simp
next
  case (Cons c cs)
  show ?case
  proof (cases "normalizeCell c")
    case (Inl e')
    with Cons.prems have "e' = e" by simp
    with Inl normalizeCell_Inl[of c e] show ?thesis by (auto simp: whole_iff)
  next
    case (Inr n)
    with Cons.prems have "normalizeCells cs = Inl e" by (auto split: sum.splits)
    with Cons.IH show ?thesis by auto
  qed
qed

lemma filter_two:
  assumes "t \<in> set xs" "P t" "P s"
  shows "\<not> length (filter P (xs @ s # ys)) \<le> 1"
proof -
  from assms have "filter P xs \<noteq> []" by (auto simp: filter_empty_conv)
  then have "length (filter P xs) \<ge> 1" by (cases "filter P xs") auto
  moreover have "length (filter P (xs @ s # ys))
        = length (filter P xs) + 1 + length (filter P ys)"
    using assms(3) by simp
  ultimately show ?thesis by linarith
qed

lemma tracks_empty: "tracks emptyPlacement []"
  by (simp add: tracks_def emptyPlacement_def)

lemma tracks_placed:
  assumes "tracks st prev" "fits st s n ns"
  shows "tracks (placed st n ns) (prev @ [s])"
proof -
  from assms(2) have f: "sub_name s = Some n" "sub_cells s = Some (map raw ns)"
    by (simp_all add: fits_def)
  then have cs: "cells_of s = map raw ns" by (simp add: cells_of_def)
  have k: "coordKey ` set (cells_of s) = cellKey ` set ns" by (simp only: cs keys_raw)
  have 1: "pl_seenNames (placed st n ns) = {m. Some m \<in> set (map sub_name (prev @ [s]))}"
    using assms(1) f(1) by (auto simp: tracks_def placed_def)
  have 2: "pl_occupied (placed st n ns) = (\<Union>s\<in>set (prev @ [s]). coordKey ` set (cells_of s))"
    using assms(1) k by (auto simp: tracks_def placed_def)
  from 1 2 show ?thesis by (simp only: tracks_def)
qed

lemma placeShip_Inl:
  assumes tr: "tracks st prev" and pl: "placeShip st s = Inl e"
  shows "violated e (prev @ s # rest)"
proof (cases "sub_name s = None \<or> sub_cells s = None")
  case True
  with pl have "e = InvalidShipConfiguration"
    by (auto simp: placeShip_def split: option.splits)
  with True show ?thesis by auto
next
  case False
  then obtain n cs where nc: "sub_name s = Some n" "sub_cells s = Some cs" by auto
  then have co: "cells_of s = cs" by (simp add: cells_of_def)
  show ?thesis
  proof (cases "map_of SHIPS n")
    case None
    with pl nc have e: "e = UnexpectedShip" by (simp add: placeShip_def)
    from None have "n \<notin> fst ` set SHIPS" by (simp add: map_of_eq_None_iff)
    with e nc show ?thesis by auto
  next
    case (Some k)
    then have k: "k > 1" by (rule catalog_length)
    show ?thesis
    proof (cases "n \<in> pl_seenNames st")
      case True
      with pl nc Some k have e: "e = DuplicateShip" by (simp add: placeShip_def)
      from True tr have "Some n \<in> set (map sub_name prev)" by (simp add: tracks_def)
      with nc have "\<not> distinct (map sub_name (prev @ s # rest))" by auto
      with e show ?thesis by simp
    next
      case unseen: False
      show ?thesis
      proof (cases "length cs = k")
        case False
        with pl nc Some k unseen have "e = WrongCellCount n k" by (simp add: placeShip_def)
        with nc Some False co show ?thesis by auto
      next
        case len: True
        show ?thesis
        proof (cases "normalizeCells cs")
          case (Inl e')
          with pl nc Some k unseen len have "e' = e" by (simp add: placeShip_def)
          with Inl normalizeCells_Inl[of cs e] co show ?thesis by auto
        next
          case (Inr ns)
          then have r: "cs = map raw ns" "list_all inside ns" by (simp_all add: normalizeCells_Inr)
          have lns: "length ns > 1" using k len r by simp
          have lcs: "length (cells_of s) > 1" using k len co by simp
          show ?thesis
          proof (cases "checkLine ns")
            case (Some e')
            with pl nc \<open>map_of SHIPS n = Some k\<close> k unseen len Inr have "e' = e"
              by (simp add: placeShip_def)
            with Some checkLine_Some[OF lns, of e]
            have "(e = NotStraightLine \<and> \<not> (\<exists>a. one_axis (cells_of s) a))
                \<or> (e = NotConsecutive \<and> (\<exists>a. one_axis (cells_of s) a \<and> \<not> spec_run a (cells_of s)))"
              by (simp add: co r)
            with lcs show ?thesis by auto
          next
            case None
            then have lo: "line_ok ns" using lns by (simp add: checkLine_None)
            from pl nc \<open>map_of SHIPS n = Some k\<close> k unseen len Inr None
            obtain e' where m: "markCells n (pl_board st, pl_occupied st) ns = Inl e'" and "e' = e"
              by (auto simp: placeShip_def split: sum.splits)
            then have e: "e = ShipsOverlap" using markCells_Inl by blast
            have "\<not> (distinct ns \<and> cellKey ` set ns \<inter> pl_occupied st = {})"
              using m markCells_Inr[of n "pl_board st" "pl_occupied st" ns] by auto
            with line_ok_distinct[OF lo] have "cellKey ` set ns \<inter> pl_occupied st \<noteq> {}" by simp
            then obtain c where c: "c \<in> set ns" "cellKey c \<in> pl_occupied st" by blast
            with tr obtain t d where t: "t \<in> set prev" "d \<in> set (cells_of t)" "coordKey d = cellKey c"
              by (auto simp: tracks_def)
            then have "d = raw c" by (metis coordKey_inj coordKey_raw)
            with t c have "raw c \<in> set (cells_of t)" "raw c \<in> set (cells_of s)"
              by (simp_all add: co r)
            with t(1) have "\<not> length (filter (\<lambda>s. raw c \<in> set (cells_of s)) (prev @ s # rest)) \<le> 1"
              by (intro filter_two[of t]) simp_all
            then have "\<not> spec_no_overlap (prev @ s # rest)"
              unfolding spec_no_overlap_def by blast
            with e show ?thesis by simp
          qed
        qed
      qed
    qed
  qed
qed

lemma placeAll_Inl:
  "tracks st prev \<Longrightarrow> placeAll st ss = Inl e \<Longrightarrow> violated e (prev @ ss)"
proof (induction ss arbitrary: st prev)
  case Nil
  then show ?case by simp
next
  case (Cons s ss)
  show ?case
  proof (cases "placeShip st s")
    case (Inl e')
    with Cons.prems have "e' = e" by simp
    with Inl placeShip_Inl[OF Cons.prems(1)] show ?thesis by blast
  next
    case (Inr st1)
    with Cons.prems have 2: "placeAll st1 ss = Inl e" by simp
    from placeShip_Inr[OF Inr] obtain n ns where f: "fits st s n ns" "st1 = placed st n ns"
      by blast
    have "tracks st1 (prev @ [s])" using tracks_placed[OF Cons.prems(1) f(1)] f(2) by simp
    from Cons.IH[OF this 2] show ?thesis by simp
  qed
qed

lemma catalog_names_card: "card (Some ` fst ` set SHIPS) = 5"
  by (simp add: SHIPS_def)

lemma names_iff:
  assumes "\<forall>s\<in>set ss. ship_ok s"
  shows "(length ss = length SHIPS \<and> distinct (map sub_name ss)) \<longleftrightarrow> spec_names ss"
proof -
  have sub: "set (map sub_name ss) \<subseteq> Some ` fst ` set SHIPS"
  proof
    fix x assume "x \<in> set (map sub_name ss)"
    then obtain s where s: "s \<in> set ss" "x = sub_name s" by auto
    with assms obtain n k where "sub_name s = Some n" "map_of SHIPS n = Some k"
      by (auto simp: ship_ok_def spec_count_def)
    then have "n \<in> fst ` set SHIPS" by (metis map_of_SomeD fst_conv imageI)
    with s \<open>sub_name s = Some n\<close> show "x \<in> Some ` fst ` set SHIPS" by simp
  qed
  have l5: "length SHIPS = 5" by (simp add: SHIPS_def)
  show ?thesis
  proof
    assume a: "length ss = length SHIPS \<and> distinct (map sub_name ss)"
    then have "card (set (map sub_name ss)) = length (map sub_name ss)"
      by (simp only: distinct_card)
    with a l5 have "card (set (map sub_name ss)) = 5" by simp
    with sub have "set (map sub_name ss) = Some ` fst ` set SHIPS"
      by (intro card_subset_eq) (simp_all add: catalog_names_card)
    with a show "spec_names ss" by (simp add: spec_names_def)
  next
    assume "spec_names ss"
    then have d: "distinct (map sub_name ss)" and e: "set (map sub_name ss) = Some ` fst ` set SHIPS"
      by (simp_all add: spec_names_def)
    from d have "length (map sub_name ss) = card (set (map sub_name ss))"
      by (simp only: distinct_card)
    with e catalog_names_card l5 have "length ss = length SHIPS" by simp
    with d show "length ss = length SHIPS \<and> distinct (map sub_name ss)" by simp
  qed
qed

lemma validateShips_accepts: "(\<exists>pl. validateShips submitted = Inr pl) \<longleftrightarrow> spec_fleet submitted"
proof (cases submitted)
  case None
  then show ?thesis by (simp add: validateShips_def spec_fleet_def)
next
  case (Some ss)
  have c: "compat emptyPlacement ss \<longleftrightarrow>
        ((\<forall>s\<in>set ss. ship_ok s) \<and> distinct (map sub_name ss) \<and> spec_no_overlap ss)"
    by (simp add: compat_def emptyPlacement_def)
  have "(\<exists>pl. validateShips submitted = Inr pl)
        \<longleftrightarrow> (length ss = length SHIPS \<and> compat emptyPlacement ss)"
    using Some placeAll_Inr_iff[of emptyPlacement ss] by (simp add: validateShips_def)
  also have "\<dots> \<longleftrightarrow> ((\<forall>s\<in>set ss. ship_ok s) \<and> spec_names ss \<and> spec_no_overlap ss)"
    unfolding c using names_iff[of ss] by blast
  also have "\<dots> \<longleftrightarrow> spec_fleet submitted"
    using Some by (auto simp: spec_fleet_def ship_ok_def)
  finally show ?thesis .
qed

lemma validateShips_rejects: "validateShips submitted = Inl e \<Longrightarrow> rejected_for e submitted"
proof (cases submitted)
  case None
  then show "validateShips submitted = Inl e \<Longrightarrow> rejected_for e submitted"
    by (simp add: validateShips_def rejected_for_def)
next
  case (Some ss)
  assume a: "validateShips submitted = Inl e"
  show "rejected_for e submitted"
  proof (cases "length ss = length SHIPS")
    case True
    with a Some have "placeAll emptyPlacement ss = Inl e" by (simp add: validateShips_def)
    from placeAll_Inl[OF tracks_empty this] Some show ?thesis by (simp add: rejected_for_def)
  next
    case False
    with a Some have "e = AllShipsMustBePlaced" by (simp add: validateShips_def)
    with False Some show ?thesis by (simp add: rejected_for_def)
  qed
qed

section \<open>The validator and the placement rules\<close>

lemma cellKey_Cell [simp]: "cellKey (Cell i j k) = (num i, num j, num k)"
  by (simp add: cellKey_def)

lemma validate_canonical: "\<exists>pl. validateShips (Some canonical_fleet) = Inr pl"
  by (simp add: validateShips_def canonical_fleet_def entry_def SHIPS_def
      emptyPlacement_def placeShip_def checkLine_def varyingAxes_def axes_def set_size_def)

text \<open>
  C3. The placement validator accepts a submission exactly when it has one entry per catalog
  name, every ship has its catalog number of cells, every coordinate decodes to a whole number
  in [0,5), every ship varies on exactly one axis along which its values are a run without gaps
  or repeats, and no cell belongs to two ships; and whenever it rejects, the reason it gives
  names a clause that the submission violates.
\<close>

theorem validateShips_correct:
  "((\<exists>pl. validateShips submitted = Inr pl) \<longleftrightarrow> spec_fleet submitted)
   \<and> (\<forall>e. validateShips submitted = Inl e \<longrightarrow> rejected_for e submitted)"
  using validateShips_accepts validateShips_rejects by blast

theorem validateShips_correct_witness:
  "(\<exists>pl. validateShips (Some canonical_fleet) = Inr pl) \<and> spec_fleet (Some canonical_fleet)
   \<and> validateShips (Some crooked_fleet) = Inl NotStraightLine
   \<and> rejected_for NotStraightLine (Some crooked_fleet)
   \<and> \<not> spec_fleet (Some crooked_fleet)"
  using validateShips_correct[of "Some canonical_fleet"]
        validateShips_correct[of "Some crooked_fleet"]
        validate_canonical validate_crooked
  by auto

section \<open>Board and ship list agree\<close>

lemma board_inv_empty: "board_inv emptyPlacement"
  by (simp add: board_inv_def emptyPlacement_def cube_empty board_at_empty)

lemma board_inv_placed:
  assumes inv: "board_inv st" and f: "fits st s n ns"
  shows "board_inv (placed st n ns)"
proof -
  from f have ins: "list_all inside ns" and cat: "map_of SHIPS n = Some (length ns)"
    and dis: "cellKey ` set ns \<inter> pl_occupied st = {}"
    by (simp_all add: fits_def)
  from inv have cu: "cube (pl_board st)"
    and at: "\<And>c m. inside c \<Longrightarrow> (board_at (pl_board st) c = Some m)
            = (\<exists>sh\<in>set (pl_sanitizedShips st). ship_name sh = m \<and> c \<in> set (ship_cells sh))"
    and occ: "pl_occupied st = (\<Union>sh\<in>set (pl_sanitizedShips st). cellKey ` set (ship_cells sh))"
    and shs: "\<forall>sh\<in>set (pl_sanitizedShips st). list_all inside (ship_cells sh)
            \<and> map_of SHIPS (ship_name sh) = Some (length (ship_cells sh))"
    by (simp_all add: board_inv_def)
  have fresh: "\<And>c sh. c \<in> set ns \<Longrightarrow> sh \<in> set (pl_sanitizedShips st) \<Longrightarrow> c \<notin> set (ship_cells sh)"
  proof
    fix c sh assume "c \<in> set ns" "sh \<in> set (pl_sanitizedShips st)" "c \<in> set (ship_cells sh)"
    then have "cellKey c \<in> cellKey ` set ns" "cellKey c \<in> pl_occupied st"
      unfolding occ by blast+
    with dis show False by blast
  qed
  have 1: "cube (pl_board (placed st n ns))"
    using cu ins by (simp add: placed_def cube_mark)
  have 2: "\<And>c m. inside c \<Longrightarrow> (board_at (pl_board (placed st n ns)) c = Some m)
            = (\<exists>sh\<in>set (pl_sanitizedShips (placed st n ns)). ship_name sh = m \<and> c \<in> set (ship_cells sh))"
  proof -
    fix c m assume c: "inside c"
    show "(board_at (pl_board (placed st n ns)) c = Some m)
            = (\<exists>sh\<in>set (pl_sanitizedShips (placed st n ns)). ship_name sh = m \<and> c \<in> set (ship_cells sh))"
    proof (cases "c \<in> set ns")
      case True
      then have "board_at (pl_board (placed st n ns)) c = Some n"
        using cu ins c by (simp add: placed_def board_at_mark)
      moreover have "(\<exists>sh\<in>set (pl_sanitizedShips (placed st n ns)). ship_name sh = m \<and> c \<in> set (ship_cells sh))
          = (n = m)"
        using True fresh by (auto simp: placed_def)
      ultimately show ?thesis by simp
    next
      case False
      then have "board_at (pl_board (placed st n ns)) c = board_at (pl_board st) c"
        using cu ins c by (simp add: placed_def board_at_mark)
      moreover have "(\<exists>sh\<in>set (pl_sanitizedShips (placed st n ns)). ship_name sh = m \<and> c \<in> set (ship_cells sh))
          = (\<exists>sh\<in>set (pl_sanitizedShips st). ship_name sh = m \<and> c \<in> set (ship_cells sh))"
        using False by (auto simp: placed_def)
      ultimately show ?thesis using at[OF c] by simp
    qed
  qed
  have 3: "pl_occupied (placed st n ns)
        = (\<Union>sh\<in>set (pl_sanitizedShips (placed st n ns)). cellKey ` set (ship_cells sh))"
    using occ by (auto simp: placed_def)
  have 4: "\<forall>sh\<in>set (pl_sanitizedShips (placed st n ns)). list_all inside (ship_cells sh)
            \<and> map_of SHIPS (ship_name sh) = Some (length (ship_cells sh))"
    using shs ins cat by (auto simp: placed_def)
  from 1 2 3 4 show ?thesis unfolding board_inv_def by blast
qed

lemma board_inv_placeAll:
  "board_inv st \<Longrightarrow> placeAll st ss = Inr st' \<Longrightarrow> board_inv st'"
proof (induction ss arbitrary: st)
  case Nil
  then show ?case by simp
next
  case (Cons s ss)
  from Cons.prems(2) obtain st1 where 1: "placeShip st s = Inr st1" and 2: "placeAll st1 ss = Inr st'"
    by (auto split: sum.splits)
  from placeShip_Inr[OF 1] obtain n ns where "fits st s n ns" "st1 = placed st n ns" by blast
  with Cons.prems(1) have "board_inv st1" by (simp add: board_inv_placed)
  from Cons.IH[OF this 2] show ?case .
qed

lemma board_inv_validate: "validateShips submitted = Inr pl \<Longrightarrow> board_inv pl"
  by (auto simp: validateShips_def split: option.splits if_splits
      intro: board_inv_placeAll[OF board_inv_empty])

lemma js_index_num:
  "js_index xs v = Some y \<longleftrightarrow> (\<exists>i. v = num i \<and> 0 \<le> i \<and> i < int (length xs) \<and> y = xs ! nat i)"
  by (auto simp: js_index_def isInteger_iff)

lemma js_index_None:
  "js_index xs v = None \<longleftrightarrow> \<not> (\<exists>i. v = num i \<and> 0 \<le> i \<and> i < int (length xs))"
  by (auto simp: js_index_def isInteger_iff)

lemma board_get_raw:
  assumes "cube b" "inside c"
  shows "board_get b (raw c) = Some (board_at b c)"
proof -
  have c: "nat (cell_x c) < 5" "nat (cell_y c) < 5" "nat (cell_z c) < 5"
    using assms(2) by (auto simp: inside_def)
  note L = cube_nth[OF assms(1) c(1,2)]
  have 1: "js_index b (num (cell_x c)) = Some (b ! nat (cell_x c))"
    using assms(2) L by (simp add: js_index_num inside_def)
  have 2: "js_index (b ! nat (cell_x c)) (num (cell_y c)) = Some (b ! nat (cell_x c) ! nat (cell_y c))"
    using assms(2) L by (simp add: js_index_num inside_def)
  have 3: "js_index (b ! nat (cell_x c) ! nat (cell_y c)) (num (cell_z c))
            = Some (b ! nat (cell_x c) ! nat (cell_y c) ! nat (cell_z c))"
    using assms(2) L by (simp add: js_index_num inside_def)
  show ?thesis by (simp add: board_get_def raw_def 1 2 3 board_at_def)
qed

lemma board_get_hit:
  assumes "cube b" "board_get b t = Some (Some n)"
  shows "\<exists>c. inside c \<and> t = raw c"
proof -
  from assms(2) obtain p where p: "js_index b (cx t) = Some p"
    by (auto simp: board_get_def split: option.splits)
  then obtain i where i: "cx t = num i" "0 \<le> i" "i < int (length b)" "p = b ! nat i"
    by (auto simp: js_index_num)
  from assms(2) p obtain l where l: "js_index p (cy t) = Some l"
    by (auto simp: board_get_def split: option.splits)
  then obtain j where j: "cy t = num j" "0 \<le> j" "j < int (length p)" "l = p ! nat j"
    by (auto simp: js_index_num)
  from assms(2) p l obtain v where v: "js_index l (cz t) = Some v"
    by (auto simp: board_get_def split: option.splits)
  then obtain k where k: "cz t = num k" "0 \<le> k" "k < int (length l)"
    by (auto simp: js_index_num)
  have li: "nat i < 5" using i assms(1) by (simp add: cube_def)
  have lj: "nat j < 5" using j i li cube_nth(2)[OF assms(1) li li] by simp
  have "length l = 5" using cube_nth(3)[OF assms(1) li lj] i j by simp
  with k i j li lj have "inside (Cell i j k) \<and> t = raw (Cell i j k)"
    by (cases t) (auto simp: inside_def raw_def)
  then show ?thesis ..
qed

lemma board_inv_consistent:
  assumes "board_inv pl"
  shows "consistent (p\<lparr>board := pl_board pl, ships := pl_sanitizedShips pl, ready := True\<rparr>)"
proof -
  from assms have cu: "cube (pl_board pl)"
    and at: "\<And>c m. inside c \<Longrightarrow> (board_at (pl_board pl) c = Some m)
            = (\<exists>sh\<in>set (pl_sanitizedShips pl). ship_name sh = m \<and> c \<in> set (ship_cells sh))"
    and shs: "\<forall>sh\<in>set (pl_sanitizedShips pl). list_all inside (ship_cells sh)
            \<and> map_of SHIPS (ship_name sh) = Some (length (ship_cells sh))"
    by (simp_all add: board_inv_def)
  have a: "\<forall>i<BOARD_SIZE. \<forall>j<BOARD_SIZE. \<forall>k<BOARD_SIZE. \<forall>n.
          (pl_board pl ! i ! j ! k = Some n)
          = (\<exists>sh\<in>set (pl_sanitizedShips pl). ship_name sh = n
                \<and> Cell (int i) (int j) (int k) \<in> set (ship_cells sh))"
  proof (intro allI impI)
    fix i j k n assume "i < BOARD_SIZE" "j < BOARD_SIZE" "k < BOARD_SIZE"
    then have "inside (Cell (int i) (int j) (int k))" by (simp add: inside_def BOARD_SIZE_def)
    from at[OF this, of n] show "(pl_board pl ! i ! j ! k = Some n)
          = (\<exists>sh\<in>set (pl_sanitizedShips pl). ship_name sh = n
                \<and> Cell (int i) (int j) (int k) \<in> set (ship_cells sh))"
      by (simp add: board_at_def)
  qed
  have b: "\<forall>t n. (board_get (pl_board pl) t = Some (Some n))
          = (\<exists>sh\<in>set (pl_sanitizedShips pl). ship_name sh = n
               \<and> coordKey t \<in> cellKey ` set (ship_cells sh))"
  proof (intro allI iffI)
    fix t n assume h: "board_get (pl_board pl) t = Some (Some n)"
    from board_get_hit[OF cu h] obtain c where c: "inside c" "t = raw c" by blast
    with h have "board_at (pl_board pl) c = Some n" by (simp add: board_get_raw[OF cu])
    with at[OF c(1), of n] obtain sh where "sh \<in> set (pl_sanitizedShips pl)"
        "ship_name sh = n" "c \<in> set (ship_cells sh)" by blast
    moreover have "coordKey t = cellKey c" using c(2) by simp
    ultimately show "\<exists>sh\<in>set (pl_sanitizedShips pl). ship_name sh = n
               \<and> coordKey t \<in> cellKey ` set (ship_cells sh)"
      by blast
  next
    fix t n assume "\<exists>sh\<in>set (pl_sanitizedShips pl). ship_name sh = n
               \<and> coordKey t \<in> cellKey ` set (ship_cells sh)"
    then obtain sh c where s: "sh \<in> set (pl_sanitizedShips pl)" "ship_name sh = n"
        "c \<in> set (ship_cells sh)" "coordKey t = cellKey c" by auto
    then have t: "t = raw c" by (metis coordKey_inj coordKey_raw)
    have c: "inside c" using s shs by (auto simp: list_all_iff)
    from at[OF c, of n] s have "board_at (pl_board pl) c = Some n" by blast
    then show "board_get (pl_board pl) t = Some (Some n)"
      by (simp add: t board_get_raw[OF cu c])
  qed
  have c: "\<forall>sh\<in>set (pl_sanitizedShips pl). \<forall>c\<in>set (ship_cells sh).
            0 \<le> cell_x c \<and> cell_x c < int BOARD_SIZE \<and> 0 \<le> cell_y c \<and> cell_y c < int BOARD_SIZE
            \<and> 0 \<le> cell_z c \<and> cell_z c < int BOARD_SIZE"
    using shs by (auto simp: list_all_iff inside_def BOARD_SIZE_def)
  from a b c shs show ?thesis by (simp add: consistent_def)
qed

section \<open>Storing a placement\<close>

lemma find_update_first:
  "(\<And>x. P x \<Longrightarrow> P (f x)) \<Longrightarrow> find P (update_first P f xs) = map_option f (find P xs)"
  by (induction xs) auto

lemma length_update_first [simp]: "length (update_first P f xs) = length xs"
  by (induction xs) auto

lemma map_pid_update_first:
  "(\<And>x. P x \<Longrightarrow> pid (f x) = pid x) \<Longrightarrow> map pid (update_first P f xs) = map pid xs"
  by (induction xs) auto

lemma length_store [simp]: "length (store s pl ps) = length ps"
  by (simp add: store_def)

lemma map_pid_store [simp]: "map pid (store s pl ps) = map pid ps"
  by (simp add: store_def map_pid_update_first)

lemma find_store:
  "find (\<lambda>p. pid p = s) (store s pl ps)
     = map_option (\<lambda>p. p\<lparr>board := pl_board pl, ships := pl_sanitizedShips pl, ready := True\<rparr>)
         (find (\<lambda>p. pid p = s) ps)"
  unfolding store_def by (rule find_update_first) simp

lemma placeShips_commit:
  assumes "rs code = Some r" "getPlayer r s = Some p0" "validateShips submitted = Inr pl"
  shows "placeShips rs s code submitted =
     (if length (players r) = 2 \<and> list_all ready (store s pl (players r))
      then \<lparr>reply = Success,
            emitted = emitRoomState (rs(code \<mapsto> r\<lparr>players := store s pl (players r)\<rparr>)) code
              @ [(code, GameStarted (Some (pid (store s pl (players r) ! 0))))]
              @ emitRoomState (rs(code \<mapsto> r\<lparr>players := store s pl (players r),
                     turn := Some (pid (store s pl (players r) ! 0))\<rparr>)) code,
            rooms_after = rs(code \<mapsto> r\<lparr>players := store s pl (players r),
                     turn := Some (pid (store s pl (players r) ! 0))\<rparr>)\<rparr>
      else \<lparr>reply = Success,
            emitted = emitRoomState (rs(code \<mapsto> r\<lparr>players := store s pl (players r)\<rparr>)) code
              @ [(code, PlayerReady)],
            rooms_after = rs(code \<mapsto> r\<lparr>players := store s pl (players r)\<rparr>)\<rparr>)"
  using assms by (simp add: placeShips_def Let_def store_def)

lemma placeShips_SuccessD:
  assumes "reply (placeShips rs s code submitted) = Success"
  shows "\<exists>r p0 pl. rs code = Some r \<and> getPlayer r s = Some p0 \<and> validateShips submitted = Inr pl"
  using assms
  by (auto simp: placeShips_def reject_def split: option.splits sum.splits)

lemma emitRoomState_events:
  "(c, ev) \<in> set (emitRoomState rs code) \<Longrightarrow> \<exists>ps t b. ev = RoomState ps t b"
  by (auto simp: emitRoomState_def split: option.splits)

text \<open>
  C10. After a successful \<^verbatim>\<open>placeShips\<close> the player is ready and the stored board and ship
  list agree: a board cell holds the name of a ship exactly when the cell is listed for a ship
  of that name (also as the attack handler reads the board), every listed cell lies in [0,5)
  on each axis, and every ship has as many cells as the catalog says.
\<close>

theorem placeShips_board_matches_ships:
  assumes "reply (placeShips rs s code submitted) = Success"
  shows "\<exists>r p. rooms_after (placeShips rs s code submitted) code = Some r
           \<and> getPlayer r s = Some p \<and> ready p \<and> consistent p"
proof -
  from placeShips_SuccessD[OF assms] obtain r p0 pl where
    f: "rs code = Some r" "getPlayer r s = Some p0" "validateShips submitted = Inr pl"
    by blast
  let ?p = "p0\<lparr>board := pl_board pl, ships := pl_sanitizedShips pl, ready := True\<rparr>"
  have c: "consistent ?p" using board_inv_consistent[OF board_inv_validate[OF f(3)]] .
  have g: "find (\<lambda>p. pid p = s) (store s pl (players r)) = Some ?p"
    using f(2) by (simp add: find_store getPlayer_def)
  note pc = placeShips_commit[where rs = rs and code = code, OF f]
  show ?thesis
  proof (cases "length (players r) = 2 \<and> list_all ready (store s pl (players r))")
    case True
    then have "rooms_after (placeShips rs s code submitted) code
        = Some (r\<lparr>players := store s pl (players r),
                  turn := Some (pid (store s pl (players r) ! 0))\<rparr>)"
      by (auto simp: pc)
    moreover have "getPlayer (r\<lparr>players := store s pl (players r),
                  turn := Some (pid (store s pl (players r) ! 0))\<rparr>) s = Some ?p"
      using g by (simp add: getPlayer_def)
    ultimately show ?thesis using c by simp
  next
    case False
    then have "rooms_after (placeShips rs s code submitted) code
        = Some (r\<lparr>players := store s pl (players r)\<rparr>)"
      by (auto simp: pc)
    moreover have "getPlayer (r\<lparr>players := store s pl (players r)\<rparr>) s = Some ?p"
      using g by (simp add: getPlayer_def)
    ultimately show ?thesis using c by simp
  qed
qed

lemma alice_places:
  "reply (placeShips lobby ''alice'' ''000001'' (Some canonical_fleet)) = Success"
proof -
  from validate_canonical obtain pl where "validateShips (Some canonical_fleet) = Inr pl" ..
  then show ?thesis
    by (simp add: placeShips_def lobby_eq getPlayer_def newPlayer_def Let_def)
qed

theorem placeShips_board_matches_ships_witness:
  "reply (placeShips lobby ''alice'' ''000001'' (Some canonical_fleet)) = Success
   \<and> (\<exists>r p. rooms_after (placeShips lobby ''alice'' ''000001'' (Some canonical_fleet)) ''000001''
               = Some r
           \<and> getPlayer r ''alice'' = Some p \<and> ready p \<and> consistent p)"
  using placeShips_board_matches_ships[OF alice_places] alice_places by simp

section \<open>Rooms before the start\<close>

lemma duel_setup_eq:
  "duel_setup = [''000001'' \<mapsto> \<lparr>players = [newPlayer ''alice'', newPlayer ''bob''], turn = None\<rparr>]"
  by (simp add: duel_setup_def lobby_eq joinGame_def Let_def)

lemma bob_ready_eq:
  "\<exists>pl. validateShips (Some canonical_fleet) = Inr pl \<and>
     bob_ready = [''000001'' \<mapsto> \<lparr>players = [newPlayer ''alice'',
        (newPlayer ''bob'')\<lparr>board := pl_board pl, ships := pl_sanitizedShips pl, ready := True\<rparr>],
        turn = None\<rparr>]"
proof -
  from validate_canonical obtain pl where pl: "validateShips (Some canonical_fleet) = Inr pl" ..
  have "bob_ready = [''000001'' \<mapsto> \<lparr>players = [newPlayer ''alice'',
        (newPlayer ''bob'')\<lparr>board := pl_board pl, ships := pl_sanitizedShips pl, ready := True\<rparr>],
        turn = None\<rparr>]"
    by (simp add: bob_ready_def duel_setup_eq placeShips_def getPlayer_def pl Let_def newPlayer_def)
  with pl show ?thesis by blast
qed

section \<open>The attack handler\<close>

lemma getPlayer_pid: "getPlayer r s = Some p \<Longrightarrow> pid p = s"
  by (auto simp: getPlayer_def find_Some_iff)

lemma getPlayer_mem: "getPlayer r s = Some p \<Longrightarrow> p \<in> set (players r)"
  by (auto simp: getPlayer_def find_Some_iff)

lemma find_update_first_const:
  "P y \<Longrightarrow> find P xs = Some x \<Longrightarrow> find P (update_first P (\<lambda>_. y) xs) = Some y"
  by (induction xs) (auto split: if_splits)

lemma getOpponent_update_first:
  assumes "getOpponent r s = Some opp" "pid y = s"
  shows "getOpponent (r\<lparr>players := update_first (\<lambda>q. pid q = s) (\<lambda>_. y) (players r)\<rparr>) s
           = Some opp"
proof -
  from assms(1) obtain a b rest where ps: "players r = a # b # rest"
    by (auto simp: getOpponent_def split: list.splits)
  show ?thesis using assms by (auto simp: ps getOpponent_def)
qed

lemma getOpponent_turn [simp]: "getOpponent (r\<lparr>turn := x\<rparr>) s = getOpponent r s"
  by (simp add: getOpponent_def)

lemma getPlayer_turn [simp]: "getPlayer (r\<lparr>turn := x\<rparr>) s = getPlayer r s"
  by (simp add: getPlayer_def)

lemma allShipsSunk_iff:
  "allShipsSunk ss h \<longleftrightarrow> (\<forall>sh\<in>set ss. \<forall>c\<in>set (ship_cells sh). cellKey c \<in> h)"
  by (simp add: allShipsSunk_def list_all_iff)

lemma after_shot_facts:
  assumes "getPlayer r s = Some p" "pid player' = s" "getOpponent r s = Some opp"
  shows "getPlayer (after_shot r s opp player') s = Some player'"
    and "getOpponent (after_shot r s opp player') s = Some opp"
    and "map pid (players (after_shot r s opp player')) = map pid (players r)"
proof -
  let ?ps = "update_first (\<lambda>q. pid q = s) (\<lambda>_. player') (players r)"
  have g: "find (\<lambda>q. pid q = s) ?ps = Some player'"
    using assms(1,2) by (intro find_update_first_const) (simp_all add: getPlayer_def)
  then show "getPlayer (after_shot r s opp player') s = Some player'"
    by (simp add: after_shot_def getPlayer_def)
  show "getOpponent (after_shot r s opp player') s = Some opp"
    using getOpponent_update_first[OF assms(3,2)] by (simp add: after_shot_def)
  have "map pid ?ps = map pid (players r)"
    by (rule map_pid_update_first) (simp add: assms(2))
  then show "map pid (players (after_shot r s opp player')) = map pid (players r)"
    by (simp add: after_shot_def)
qed

lemma finishAttack_eq:
  "finishAttack rs s code t r opp player' res name =
     \<lparr>reply = Outcome \<lparr>attacker = s, target = t, result = res, shipName = name,
          nextTurn = (if allShipsSunk (ships opp) (hits player') then None else Some (pid opp)),
          winner = (if allShipsSunk (ships opp) (hits player') then Some s else None)\<rparr>,
      emitted = (code, AttackResult \<lparr>attacker = s, target = t, result = res, shipName = name,
          nextTurn = (if allShipsSunk (ships opp) (hits player') then None else Some (pid opp)),
          winner = (if allShipsSunk (ships opp) (hits player') then Some s else None)\<rparr>)
          # emitRoomState (rs(code \<mapsto> after_shot r s opp player')) code,
      rooms_after = rs(code \<mapsto> after_shot r s opp player')\<rparr>"
  by (simp add: finishAttack_def Let_def after_shot_def)

lemma attack_OutcomeD:
  assumes "reply (attack rs s code t) = Outcome pay"
  shows "\<exists>r opp p player' res name. admitted rs s code t r opp p
     \<and> attack rs s code t = finishAttack rs s code t r opp player' res name
     \<and> (player' = p\<lparr>hits := insert (coordKey t) (hits p)\<rparr>
          \<or> player' = p\<lparr>misses := insert (coordKey t) (misses p)\<rparr>)"
proof -
  from assms obtain r where r: "rs code = Some r"
    by (auto simp: attack_def reject_def split: option.splits)
  from assms r have tu: "turn r = Some s"
    by (auto simp: attack_def reject_def split: if_splits)
  from assms r tu obtain opp p where op: "getOpponent r s = Some opp" "getPlayer r s = Some p"
    by (cases "getOpponent r s"; cases "getPlayer r s") (auto simp: attack_def reject_def)
  from assms r tu op have chk: "\<not> outOfRange t" "coordKey t \<notin> hits p" "coordKey t \<notin> misses p"
    by (auto simp: attack_def reject_def split: if_splits)
  have ad: "admitted rs s code t r opp p" using r tu op chk by (simp add: admitted_def)
  from assms r tu op chk obtain cell where cell: "board_get (board opp) t = Some cell"
    by (cases "board_get (board opp) t") (auto simp: attack_def)
  show ?thesis
  proof (cases "truthy cell")
    case True
    with assms r tu op chk cell obtain sh where
      sh: "find (\<lambda>sh. Some (ship_name sh) = cell) (ships opp) = Some sh"
      by (cases "find (\<lambda>sh. Some (ship_name sh) = cell) (ships opp)")
         (auto simp: attack_def Let_def)
    have "attack rs s code t = finishAttack rs s code t r opp
            (p\<lparr>hits := insert (coordKey t) (hits p)\<rparr>)
            (if length (filter (\<lambda>c. cellKey c \<in> hits (p\<lparr>hits := insert (coordKey t) (hits p)\<rparr>))
                          (ship_cells sh)) = length (ship_cells sh)
             then Sunk else Hit) cell"
      using r tu op chk cell True sh by (simp add: attack_def Let_def)
    with ad show ?thesis by blast
  next
    case False
    have "attack rs s code t = finishAttack rs s code t r opp
            (p\<lparr>misses := insert (coordKey t) (misses p)\<rparr>) Miss None"
      using r tu op chk cell False by (simp add: attack_def)
    with ad show ?thesis by blast
  qed
qed

section \<open>Example matches\<close>

lemma validate_canonical_eq:
  "\<exists>pl. validateShips (Some canonical_fleet) = Inr pl \<and> pl_board pl = canonical_board
        \<and> pl_sanitizedShips pl = canonical_ships"
  by (simp add: validateShips_def canonical_fleet_def entry_def SHIPS_def
      emptyPlacement_def placeShip_def checkLine_def varyingAxes_def axes_def set_size_def
      canonical_board_def canonical_ships_def lane_def no_lane_def board_set_def
      createEmptyBoard_def BOARD_SIZE_def numeral_eq_Suc)

lemma battle_reached:
  "rooms_after (placeShips bob_ready ''alice'' ''000001'' (Some canonical_fleet)) = battle"
proof -
  from validate_canonical_eq obtain pl where pl: "validateShips (Some canonical_fleet) = Inr pl"
    "pl_board pl = canonical_board" "pl_sanitizedShips pl = canonical_ships" by blast
  from bob_ready_eq pl(1) have b: "bob_ready = [''000001'' \<mapsto> \<lparr>players = [newPlayer ''alice'',
        (newPlayer ''bob'')\<lparr>board := pl_board pl, ships := pl_sanitizedShips pl, ready := True\<rparr>],
        turn = None\<rparr>]" by auto
  show ?thesis
    by (simp add: placeShips_def b getPlayer_def newPlayer_def Let_def pl battle_def seated_def)
qed

lemma outOfRange_pt [simp]:
  "outOfRange (pt i j k) = (i < 0 \<or> j < 0 \<or> k < 0 \<or> 5 \<le> i \<or> 5 \<le> j \<or> 5 \<le> k)"
  by (simp add: outOfRange_def pt_def BOARD_SIZE_def)

lemma coordKey_pt [simp]: "coordKey (pt i j k) = (num i, num j, num k)"
  by (simp add: coordKey_def pt_def)

lemma js_index_num_eval [simp]:
  "js_index xs (num i) = (if 0 \<le> i \<and> i < int (length xs) then Some (xs ! nat i) else None)"
  by (simp add: js_index_def)

lemma board_get_pt [simp]:
  "board_get b (pt i j k) =
     (case js_index b (num i) of None \<Rightarrow> None
      | Some plane \<Rightarrow> (case js_index plane (num j) of None \<Rightarrow> None
          | Some line \<Rightarrow> Some (case js_index line (num k) of None \<Rightarrow> None | Some c \<Rightarrow> c)))"
  by (simp add: board_get_def pt_def)

lemmas battle_simps = battle_def seated_def canonical_board_def canonical_ships_def lane_def
  no_lane_def getOpponent_def getPlayer_def attack_def finishAttack_def Let_def truthy_def
  allShipsSunk_def emitRoomState_def reject_def

lemma first_shot:
  "attack battle ''alice'' ''000001'' (pt 2 2 2) =
     \<lparr>reply = Outcome \<lparr>attacker = ''alice'', target = pt 2 2 2, result = Miss, shipName = None,
          nextTurn = Some ''bob'', winner = None\<rparr>,
      emitted = [(''000001'', AttackResult \<lparr>attacker = ''alice'', target = pt 2 2 2, result = Miss,
          shipName = None, nextTurn = Some ''bob'', winner = None\<rparr>),
         (''000001'', RoomState [(''alice'', True), (''bob'', True)] (Some ''bob'') True)],
      rooms_after = [''000001'' \<mapsto> \<lparr>players = [seated ''alice'' {} {(num 2, num 2, num 2)},
                        seated ''bob'' {} {}], turn = Some ''bob''\<rparr>]\<rparr>"
  by (simp add: battle_simps)

lemma reachable_lobby: "reachable lobby"
proof -
  have "admissible Map.empty (CreateGame ''alice'' ''000001'')"
    by (simp add: roomCode_def)
  from reachable.step[OF reachable.start this] show ?thesis by (simp add: lobby_def)
qed

lemma reachable_battle: "reachable battle"
proof -
  have "reachable (rooms_after (handle lobby (JoinGame ''bob'' ''000001'')))"
    by (rule reachable.step[OF reachable_lobby]) simp
  then have 1: "reachable duel_setup" by (simp add: duel_setup_def)
  have "reachable (rooms_after (handle duel_setup
          (PlaceShips ''bob'' ''000001'' (Some canonical_fleet))))"
    by (rule reachable.step[OF 1]) simp
  then have 2: "reachable bob_ready" by (simp add: bob_ready_def)
  have "reachable (rooms_after (handle bob_ready
          (PlaceShips ''alice'' ''000001'' (Some canonical_fleet))))"
    by (rule reachable.step[OF 2]) simp
  then show ?thesis by (simp add: battle_reached)
qed

lemma reachable_serve:
  "reachable rs \<Longrightarrow> \<forall>req\<in>set reqs. \<forall>rs'. admissible rs' req \<Longrightarrow> reachable (serve rs reqs)"
proof (induction reqs arbitrary: rs)
  case Nil
  then show ?case by simp
next
  case (Cons req reqs)
  from Cons.prems have "reachable (rooms_after (handle rs req))"
    by (intro reachable.step) simp_all
  with Cons show ?case by simp
qed

lemma rounds_admissible: "\<forall>req\<in>set (rounds as bs). \<forall>rs'. admissible rs' req"
  by (induction as bs rule: rounds.induct) auto

lemma reachable_endgame: "reachable endgame"
  unfolding endgame_def by (intro reachable_serve reachable_battle rounds_admissible)

lemma dom_attack: "dom (rooms_after (attack rs s code t)) = dom rs"
  by (auto simp: attack_def finishAttack_def reject_def Let_def
      split: option.splits if_splits prod.splits)

lemma dom_serve_rounds: "dom (serve rs (rounds as bs)) = dom rs"
  by (induction as bs arbitrary: rs rule: rounds.induct) (simp_all add: dom_attack)

lemma endgame_room:
  "endgame ''000001'' = Some \<lparr>players =
       [seated ''alice'' (coordKey ` set alice_shots) {},
        seated ''bob'' {} (coordKey ` set bob_shots)],
     turn = Some ''alice''\<rparr>"
  by code_simp

lemma endgame_eq:
  "endgame = [''000001'' \<mapsto> \<lparr>players =
       [seated ''alice'' (coordKey ` set alice_shots) {},
        seated ''bob'' {} (coordKey ` set bob_shots)],
     turn = Some ''alice''\<rparr>]"
proof
  fix c
  have d: "dom endgame = {''000001''}"
    by (simp add: endgame_def dom_serve_rounds battle_def)
  show "endgame c = [''000001'' \<mapsto> \<lparr>players =
       [seated ''alice'' (coordKey ` set alice_shots) {},
        seated ''bob'' {} (coordKey ` set bob_shots)],
     turn = Some ''alice''\<rparr>] c"
  proof (cases "c = ''000001''")
    case True
    then show ?thesis by (simp add: endgame_room)
  next
    case False
    with d have "endgame c = None" by (metis domIff singletonD)
    with False show ?thesis by simp
  qed
qed

section \<open>Wins and repeated targets\<close>

lemma attack_Outcome_room:
  assumes "reply (attack rs s code t) = Outcome pay"
  shows "\<exists>r opp p player'. admitted rs s code t r opp p \<and> pid player' = s
     \<and> (player' = p\<lparr>hits := insert (coordKey t) (hits p)\<rparr>
          \<or> player' = p\<lparr>misses := insert (coordKey t) (misses p)\<rparr>)
     \<and> rooms_after (attack rs s code t) = rs(code \<mapsto> after_shot r s opp player')
     \<and> nextTurn pay = (if allShipsSunk (ships opp) (hits player') then None else Some (pid opp))
     \<and> winner pay = (if allShipsSunk (ships opp) (hits player') then Some s else None)"
proof -
  from attack_OutcomeD[OF assms] obtain r opp p player' res name where
    a: "admitted rs s code t r opp p"
    and e: "attack rs s code t = finishAttack rs s code t r opp player' res name"
    and p': "player' = p\<lparr>hits := insert (coordKey t) (hits p)\<rparr>
          \<or> player' = p\<lparr>misses := insert (coordKey t) (misses p)\<rparr>"
    by blast
  from a have "pid p = s" by (auto simp: admitted_def dest: getPlayer_pid)
  with p' have pid: "pid player' = s" by auto
  from assms e have pay: "pay = \<lparr>attacker = s, target = t, result = res, shipName = name,
          nextTurn = (if allShipsSunk (ships opp) (hits player') then None else Some (pid opp)),
          winner = (if allShipsSunk (ships opp) (hits player') then Some s else None)\<rparr>"
    by (simp add: finishAttack_eq)
  have ra: "rooms_after (attack rs s code t) = rs(code \<mapsto> after_shot r s opp player')"
    by (simp add: e finishAttack_eq)
  from a pid p' ra pay show ?thesis by (intro exI[of _ r] exI[of _ opp] exI[of _ p] exI[of _ player']) simp
qed

lemma attack_recorded:
  assumes "reply (attack rs s code t) = Outcome pay"
  shows "\<exists>r opp r' p'. rs code = Some r \<and> getOpponent r s = Some opp
      \<and> rooms_after (attack rs s code t) code = Some r'
      \<and> getPlayer r' s = Some p' \<and> getOpponent r' s = Some opp
      \<and> coordKey t \<in> hits p' \<union> misses p'
      \<and> (winner pay = Some s
           \<longleftrightarrow> (\<forall>sh\<in>set (ships opp). \<forall>c\<in>set (ship_cells sh). cellKey c \<in> hits p'))
      \<and> (winner pay = Some s \<longrightarrow> nextTurn pay = None)
      \<and> (winner pay \<noteq> Some s \<longrightarrow>
            winner pay = None \<and> nextTurn pay = Some (pid opp) \<and> turn r' = Some (pid opp))"
proof -
  from attack_Outcome_room[OF assms] obtain r opp p player' where
    a: "admitted rs s code t r opp p" and pid: "pid player' = s"
    and p': "player' = p\<lparr>hits := insert (coordKey t) (hits p)\<rparr>
          \<or> player' = p\<lparr>misses := insert (coordKey t) (misses p)\<rparr>"
    and ra: "rooms_after (attack rs s code t) = rs(code \<mapsto> after_shot r s opp player')"
    and nt: "nextTurn pay = (if allShipsSunk (ships opp) (hits player') then None else Some (pid opp))"
    and wi: "winner pay = (if allShipsSunk (ships opp) (hits player') then Some s else None)"
    by blast
  from a have r: "rs code = Some r" and o: "getOpponent r s = Some opp"
    and g: "getPlayer r s = Some p" by (simp_all add: admitted_def)
  note f = after_shot_facts[OF g pid o]
  have k: "coordKey t \<in> hits player' \<union> misses player'" using p' by auto
  have t: "\<not> allShipsSunk (ships opp) (hits player')
        \<Longrightarrow> turn (after_shot r s opp player') = Some (pid opp)"
    by (simp add: after_shot_def)
  have "rs code = Some r \<and> getOpponent r s = Some opp
      \<and> rooms_after (attack rs s code t) code = Some (after_shot r s opp player')
      \<and> getPlayer (after_shot r s opp player') s = Some player'
      \<and> getOpponent (after_shot r s opp player') s = Some opp
      \<and> coordKey t \<in> hits player' \<union> misses player'
      \<and> (winner pay = Some s
           \<longleftrightarrow> (\<forall>sh\<in>set (ships opp). \<forall>c\<in>set (ship_cells sh). cellKey c \<in> hits player'))
      \<and> (winner pay = Some s \<longrightarrow> nextTurn pay = None)
      \<and> (winner pay \<noteq> Some s \<longrightarrow>
            winner pay = None \<and> nextTurn pay = Some (pid opp)
            \<and> turn (after_shot r s opp player') = Some (pid opp))"
    using r o ra f(1,2) k nt wi t by (simp add: allShipsSunk_iff)
  then show ?thesis by blast
qed

text \<open>
  C4. For every accepted attack: the attacker is declared winner exactly when, after the shot
  has been recorded, every cell of every ship of the opponent is in the attacker's hits; then
  there is no next turn; otherwise there is no winner, the next turn is the opponent's and
  \<^verbatim>\<open>room.turn\<close> is the opponent. The winner is set whatever the result field says, so a
  shot that sinks the last ship reports the winner and not only \<open>Sunk\<close>.
\<close>

theorem attack_win_iff:
  assumes "reply (attack rs s code t) = Outcome pay"
  shows "\<exists>r opp r' p'. rs code = Some r \<and> getOpponent r s = Some opp
      \<and> rooms_after (attack rs s code t) code = Some r'
      \<and> getPlayer r' s = Some p' \<and> getOpponent r' s = Some opp
      \<and> coordKey t \<in> hits p' \<union> misses p'
      \<and> (winner pay = Some s
           \<longleftrightarrow> (\<forall>sh\<in>set (ships opp). \<forall>c\<in>set (ship_cells sh). cellKey c \<in> hits p'))
      \<and> (winner pay = Some s \<longrightarrow> nextTurn pay = None)
      \<and> (winner pay \<noteq> Some s \<longrightarrow>
            winner pay = None \<and> nextTurn pay = Some (pid opp) \<and> turn r' = Some (pid opp))"
  using attack_recorded[OF assms] .

lemma winning_shot:
  "attack endgame ''alice'' ''000001'' (pt 1 4 0) =
     \<lparr>reply = Outcome \<lparr>attacker = ''alice'', target = pt 1 4 0, result = Sunk,
          shipName = Some ''Destroyer'', nextTurn = None, winner = Some ''alice''\<rparr>,
      emitted = [(''000001'', AttackResult \<lparr>attacker = ''alice'', target = pt 1 4 0,
          result = Sunk, shipName = Some ''Destroyer'', nextTurn = None,
          winner = Some ''alice''\<rparr>),
         (''000001'', RoomState [(''alice'', True), (''bob'', True)] (Some ''alice'') True)],
      rooms_after = [''000001'' \<mapsto> \<lparr>players =
          [seated ''alice'' (insert (num 1, num 4, num 0) (coordKey ` set alice_shots)) {},
           seated ''bob'' {} (coordKey ` set bob_shots)],
        turn = Some ''alice''\<rparr>]\<rparr>"
  by (simp add: endgame_eq alice_shots_def bob_shots_def battle_simps)

theorem attack_win_iff_witness:
  "reply (attack endgame ''alice'' ''000001'' (pt 1 4 0))
     = Outcome \<lparr>attacker = ''alice'', target = pt 1 4 0, result = Sunk,
          shipName = Some ''Destroyer'', nextTurn = None, winner = Some ''alice''\<rparr>
   \<and> (\<exists>r opp r' p'. endgame ''000001'' = Some r \<and> getOpponent r ''alice'' = Some opp
       \<and> rooms_after (attack endgame ''alice'' ''000001'' (pt 1 4 0)) ''000001'' = Some r'
       \<and> getPlayer r' ''alice'' = Some p'
       \<and> (\<forall>sh\<in>set (ships opp). \<forall>c\<in>set (ship_cells sh). cellKey c \<in> hits p'))"
proof -
  have h: "reply (attack endgame ''alice'' ''000001'' (pt 1 4 0))
     = Outcome \<lparr>attacker = ''alice'', target = pt 1 4 0, result = Sunk,
          shipName = Some ''Destroyer'', nextTurn = None, winner = Some ''alice''\<rparr>"
    by (simp add: winning_shot)
  from attack_win_iff[OF h] h show ?thesis by auto
qed

text \<open>
  C6. An attack that reaches the duplicate check (the room exists, it is the attacker's turn,
  an opponent is seated, the target is in range) at a coordinate already in the attacker's
  hits or misses is answered \<open>AlreadyTargeted\<close> and changes nothing; and every accepted
  attack leaves its coordinate in the attacker's hits or misses, whatever the outcome.
\<close>

theorem attack_duplicate_rejected:
  "(rs code = Some r \<and> turn r = Some s \<and> getOpponent r s = Some opp \<and> getPlayer r s = Some p
      \<and> \<not> outOfRange t \<and> coordKey t \<in> hits p \<union> misses p
     \<longrightarrow> reply (attack rs s code t) = Error AlreadyTargeted
        \<and> rooms_after (attack rs s code t) = rs \<and> emitted (attack rs s code t) = [])
   \<and> (reply (attack rs s code t) = Outcome pay
     \<longrightarrow> (\<exists>r' p'. rooms_after (attack rs s code t) code = Some r'
            \<and> getPlayer r' s = Some p' \<and> coordKey t \<in> hits p' \<union> misses p'))"
proof (intro conjI impI)
  assume a: "rs code = Some r \<and> turn r = Some s \<and> getOpponent r s = Some opp
      \<and> getPlayer r s = Some p \<and> \<not> outOfRange t \<and> coordKey t \<in> hits p \<union> misses p"
  then have "attack rs s code t = reject AlreadyTargeted rs"
    by (auto simp: attack_def)
  then show "reply (attack rs s code t) = Error AlreadyTargeted"
    "rooms_after (attack rs s code t) = rs" "emitted (attack rs s code t) = []"
    by (simp_all add: reject_def)
next
  assume "reply (attack rs s code t) = Outcome pay"
  from attack_recorded[OF this]
  show "\<exists>r' p'. rooms_after (attack rs s code t) code = Some r'
            \<and> getPlayer r' s = Some p' \<and> coordKey t \<in> hits p' \<union> misses p'"
    by blast
qed

lemma second_round_eq:
  "second_round = [''000001'' \<mapsto> \<lparr>players =
       [seated ''alice'' {} {(num 2, num 2, num 2)}, seated ''bob'' {} {(num 2, num 2, num 2)}],
     turn = Some ''alice''\<rparr>]"
  by (simp add: second_round_def battle_simps)

theorem attack_duplicate_rejected_witness:
  "reply (attack battle ''alice'' ''000001'' (pt 2 2 2))
     = Outcome \<lparr>attacker = ''alice'', target = pt 2 2 2, result = Miss, shipName = None,
          nextTurn = Some ''bob'', winner = None\<rparr>
   \<and> coordKey (pt 2 2 2) \<in> misses (seated ''alice'' {} {(num 2, num 2, num 2)})
   \<and> reply (attack second_round ''alice'' ''000001'' (pt 2 2 2)) = Error AlreadyTargeted
   \<and> rooms_after (attack second_round ''alice'' ''000001'' (pt 2 2 2)) = second_round
   \<and> emitted (attack second_round ''alice'' ''000001'' (pt 2 2 2)) = []"
proof -
  let ?r = "\<lparr>players =
       [seated ''alice'' {} {(num 2, num 2, num 2)}, seated ''bob'' {} {(num 2, num 2, num 2)}],
     turn = Some ''alice''\<rparr>"
  have pre: "second_round ''000001'' = Some ?r \<and> turn ?r = Some ''alice''
      \<and> getOpponent ?r ''alice'' = Some (seated ''bob'' {} {(num 2, num 2, num 2)})
      \<and> getPlayer ?r ''alice'' = Some (seated ''alice'' {} {(num 2, num 2, num 2)})
      \<and> \<not> outOfRange (pt 2 2 2)
      \<and> coordKey (pt 2 2 2) \<in> hits (seated ''alice'' {} {(num 2, num 2, num 2)})
             \<union> misses (seated ''alice'' {} {(num 2, num 2, num 2)})"
    by (simp add: second_round_eq getOpponent_def getPlayer_def seated_def)
  from attack_duplicate_rejected[of second_round "''000001''" ?r "''alice''"
      "seated ''bob'' {} {(num 2, num 2, num 2)}" "seated ''alice'' {} {(num 2, num 2, num 2)}"
      "pt 2 2 2"] pre
  have "reply (attack second_round ''alice'' ''000001'' (pt 2 2 2)) = Error AlreadyTargeted
     \<and> rooms_after (attack second_round ''alice'' ''000001'' (pt 2 2 2)) = second_round
     \<and> emitted (attack second_round ''alice'' ''000001'' (pt 2 2 2)) = []"
    by blast
  then show ?thesis by (simp add: first_shot seated_def)
qed

section \<open>After a win, and fractional targets\<close>

lemma alice_won_eq:
  "alice_won = [''000001'' \<mapsto> \<lparr>players =
          [seated ''alice'' (insert (num 1, num 4, num 0) (coordKey ` set alice_shots)) {},
           seated ''bob'' {} (coordKey ` set bob_shots)],
        turn = Some ''alice''\<rparr>]"
  by (simp add: alice_won_def winning_shot)

lemma reachable_alice_won: "reachable alice_won"
proof -
  have "reachable (rooms_after (handle endgame (Attack ''alice'' ''000001'' (pt 1 4 0))))"
    by (rule reachable.step[OF reachable_endgame]) simp
  then show ?thesis by (simp add: alice_won_def)
qed

text \<open>
  The bounds check of the attack handler does what it is written to do: a target with an axis
  value below 0 or not below 5 is refused before anything is changed.
\<close>

lemma attack_out_of_range:
  assumes "rs code = Some r" "turn r = Some s" "getOpponent r s = Some opp"
    "getPlayer r s = Some p" "outOfRange t"
  shows "attack rs s code t = reject InvalidTarget rs"
  using assms by (simp add: attack_def)

text \<open>A winning attack leaves \<^verbatim>\<open>room.turn\<close> with the winner.\<close>

lemma attack_win_keeps_turn:
  assumes "reply (attack rs s code t) = Outcome pay" "winner pay = Some s"
  shows "\<exists>r'. rooms_after (attack rs s code t) code = Some r' \<and> turn r' = Some s"
proof -
  from attack_Outcome_room[OF assms(1)] obtain r opp p player' where
    a: "admitted rs s code t r opp p"
    and ra: "rooms_after (attack rs s code t) = rs(code \<mapsto> after_shot r s opp player')"
    and wi: "winner pay = (if allShipsSunk (ships opp) (hits player') then Some s else None)"
    by blast
  from wi assms(2) have "allShipsSunk (ships opp) (hits player')" by (simp split: if_splits)
  then have "turn (after_shot r s opp player') = turn r" by (simp add: after_shot_def)
  with a ra show ?thesis by (simp add: admitted_def)
qed

text \<open>
  C1. In the match \<open>endgame\<close>, reached by the handlers from the empty server, ''alice'''s shot
  at (1,4,0) sinks the last ship and is answered with \<open>winner = alice\<close> and no next turn.
  The room still has \<open>turn = alice\<close>: her next attack, at (4,4,4), is accepted, recorded as a
  miss, answered with a second win and changes the room. (An attack of ''bob'' is refused,
  because it is not his turn.)
\<close>

theorem winner_attacks_again:
  "reachable endgame
   \<and> reply (attack endgame ''alice'' ''000001'' (pt 1 4 0))
       = Outcome \<lparr>attacker = ''alice'', target = pt 1 4 0, result = Sunk,
            shipName = Some ''Destroyer'', nextTurn = None, winner = Some ''alice''\<rparr>
   \<and> rooms_after (attack endgame ''alice'' ''000001'' (pt 1 4 0)) = alice_won
   \<and> reply (attack alice_won ''alice'' ''000001'' (pt 4 4 4))
       = Outcome \<lparr>attacker = ''alice'', target = pt 4 4 4, result = Miss, shipName = None,
            nextTurn = None, winner = Some ''alice''\<rparr>
   \<and> rooms_after (attack alice_won ''alice'' ''000001'' (pt 4 4 4)) ''000001''
       = Some \<lparr>players =
          [seated ''alice'' (insert (num 1, num 4, num 0) (coordKey ` set alice_shots))
             {(num 4, num 4, num 4)},
           seated ''bob'' {} (coordKey ` set bob_shots)],
          turn = Some ''alice''\<rparr>
   \<and> rooms_after (attack alice_won ''alice'' ''000001'' (pt 4 4 4)) \<noteq> alice_won
   \<and> reply (attack alice_won ''bob'' ''000001'' (pt 4 4 4)) = Error NotYourTurn"
proof -
  have 1: "reply (attack endgame ''alice'' ''000001'' (pt 1 4 0))
       = Outcome \<lparr>attacker = ''alice'', target = pt 1 4 0, result = Sunk,
            shipName = Some ''Destroyer'', nextTurn = None, winner = Some ''alice''\<rparr>"
    by (simp add: winning_shot)
  have 2: "attack alice_won ''alice'' ''000001'' (pt 4 4 4) =
     \<lparr>reply = Outcome \<lparr>attacker = ''alice'', target = pt 4 4 4, result = Miss, shipName = None,
            nextTurn = None, winner = Some ''alice''\<rparr>,
      emitted = [(''000001'', AttackResult \<lparr>attacker = ''alice'', target = pt 4 4 4,
            result = Miss, shipName = None, nextTurn = None, winner = Some ''alice''\<rparr>),
         (''000001'', RoomState [(''alice'', True), (''bob'', True)] (Some ''alice'') True)],
      rooms_after = [''000001'' \<mapsto> \<lparr>players =
          [seated ''alice'' (insert (num 1, num 4, num 0) (coordKey ` set alice_shots))
             {(num 4, num 4, num 4)},
           seated ''bob'' {} (coordKey ` set bob_shots)],
          turn = Some ''alice''\<rparr>]\<rparr>"
    by (simp add: alice_won_eq alice_shots_def bob_shots_def battle_simps)
  have a: "rooms_after (attack alice_won ''alice'' ''000001'' (pt 4 4 4)) ''000001''
       = Some \<lparr>players =
          [seated ''alice'' (insert (num 1, num 4, num 0) (coordKey ` set alice_shots))
             {(num 4, num 4, num 4)},
           seated ''bob'' {} (coordKey ` set bob_shots)],
          turn = Some ''alice''\<rparr>"
    by (simp add: 2)
  have b: "alice_won ''000001'' = Some \<lparr>players =
          [seated ''alice'' (insert (num 1, num 4, num 0) (coordKey ` set alice_shots)) {},
           seated ''bob'' {} (coordKey ` set bob_shots)],
        turn = Some ''alice''\<rparr>"
    by (simp add: alice_won_eq)
  have 3: "rooms_after (attack alice_won ''alice'' ''000001'' (pt 4 4 4)) ''000001''
        \<noteq> alice_won ''000001''"
    unfolding a b by (simp add: seated_def)
  then have 4: "rooms_after (attack alice_won ''alice'' ''000001'' (pt 4 4 4)) \<noteq> alice_won"
    by auto
  have 5: "reply (attack alice_won ''bob'' ''000001'' (pt 4 4 4)) = Error NotYourTurn"
    by (simp add: alice_won_eq attack_def reject_def)
  from reachable_endgame 1 2 4 5 show ?thesis by (simp add: alice_won_def)
qed

lemma not_whole_half: "\<not> isInteger (Fin (3 / 2))"
proof -
  have "\<lfloor>3 / 2 :: rat\<rfloor> = 1" by (rule floor_unique) simp_all
  then show ?thesis by simp
qed

text \<open>
  C5. In the started match \<open>battle\<close> it is ''alice'''s turn. Her attack at (0, 0, 1.5) passes
  the bounds check, is recorded as a miss under a key that is no cell of the board, and hands
  the turn to ''bob''; her attack at (1.5, 0, 0) passes the bounds check as well and ends in
  a \<^verbatim>\<open>TypeError\<close> without any reply. Neither is refused as an invalid target.
\<close>

theorem fractional_target_not_refused:
  "reachable battle
   \<and> \<not> isInteger (Fin (3 / 2))
   \<and> attack battle ''alice'' ''000001'' half_z =
       \<lparr>reply = Outcome \<lparr>attacker = ''alice'', target = half_z, result = Miss, shipName = None,
            nextTurn = Some ''bob'', winner = None\<rparr>,
        emitted = [(''000001'', AttackResult \<lparr>attacker = ''alice'', target = half_z,
            result = Miss, shipName = None, nextTurn = Some ''bob'', winner = None\<rparr>),
          (''000001'', RoomState [(''alice'', True), (''bob'', True)] (Some ''bob'') True)],
        rooms_after = [''000001'' \<mapsto> \<lparr>players =
            [seated ''alice'' {} {(num 0, num 0, Fin (3 / 2))}, seated ''bob'' {} {}],
          turn = Some ''bob''\<rparr>]\<rparr>
   \<and> rooms_after (attack battle ''alice'' ''000001'' half_z) \<noteq> battle
   \<and> reply (attack battle ''alice'' ''000001'' half_x) = Uncaught"
proof -
  have 1: "\<not> isInteger (Fin (3 / 2))" by (rule not_whole_half)
  have o: "\<not> outOfRange half_z" "\<not> outOfRange half_x"
    by (simp_all add: outOfRange_def half_z_def half_x_def num_def BOARD_SIZE_def)
  have g: "board_get canonical_board half_z = Some None" "board_get canonical_board half_x = None"
    by (simp_all add: board_get_def half_z_def half_x_def js_index_def canonical_board_def
        lane_def no_lane_def not_whole_half del: isInteger.simps)
  have 2: "attack battle ''alice'' ''000001'' half_z =
       \<lparr>reply = Outcome \<lparr>attacker = ''alice'', target = half_z, result = Miss, shipName = None,
            nextTurn = Some ''bob'', winner = None\<rparr>,
        emitted = [(''000001'', AttackResult \<lparr>attacker = ''alice'', target = half_z,
            result = Miss, shipName = None, nextTurn = Some ''bob'', winner = None\<rparr>),
          (''000001'', RoomState [(''alice'', True), (''bob'', True)] (Some ''bob'') True)],
        rooms_after = [''000001'' \<mapsto> \<lparr>players =
            [seated ''alice'' {} {(num 0, num 0, Fin (3 / 2))}, seated ''bob'' {} {}],
          turn = Some ''bob''\<rparr>]\<rparr>"
    using o(1) g(1)
    by (simp add: battle_def seated_def getOpponent_def getPlayer_def attack_def
        finishAttack_def Let_def truthy_def allShipsSunk_def emitRoomState_def
        canonical_ships_def coordKey_def half_z_def)
  have "rooms_after (attack battle ''alice'' ''000001'' half_z) ''000001''
       = Some \<lparr>players =
            [seated ''alice'' {} {(num 0, num 0, Fin (3 / 2))}, seated ''bob'' {} {}],
          turn = Some ''bob''\<rparr>"
    by (simp add: 2)
  moreover have "battle ''000001'' = Some \<lparr>players = [seated ''alice'' {} {}, seated ''bob'' {} {}],
                                turn = Some ''alice''\<rparr>"
    by (simp add: battle_def)
  ultimately
  have "rooms_after (attack battle ''alice'' ''000001'' half_z) ''000001'' \<noteq> battle ''000001''"
    by simp
  then have 3: "rooms_after (attack battle ''alice'' ''000001'' half_z) \<noteq> battle" by auto
  have 4: "reply (attack battle ''alice'' ''000001'' half_x) = Uncaught"
    using o(2) g(2)
    by (simp add: battle_def seated_def getOpponent_def getPlayer_def attack_def
        coordKey_def half_x_def)
  from reachable_battle 1 2 3 4 show ?thesis by simp
qed

section \<open>The turn belongs to a seated player\<close>

lemma turns_seated_upd:
  "turns_seated rs \<Longrightarrow> turn_seated r \<Longrightarrow> turns_seated (rs(code \<mapsto> r))"
  by (simp add: turns_seated_def)

lemma turns_seated_del: "turns_seated rs \<Longrightarrow> turns_seated (rs(code := None))"
  by (simp add: turns_seated_def)

lemma turn_seated_same_seats:
  assumes "turn_seated r" "map pid ps = map pid (players r)"
  shows "turn_seated (r\<lparr>players := ps\<rparr>)"
proof -
  from assms(2) have "length ps = length (players r)" by (metis length_map)
  moreover from assms(2) have "pid ` set ps = pid ` set (players r)" by (metis set_map)
  ultimately show ?thesis using assms(1) by (simp add: turn_seated_def)
qed

lemma turn_seated_turn:
  assumes "turn_seated r" "p \<in> set (players r)"
  shows "turn_seated (r\<lparr>turn := Some (pid p)\<rparr>)"
  using assms by (simp add: turn_seated_def)

lemma getOpponent_mem: "getOpponent r s = Some opp \<Longrightarrow> opp \<in> set (players r)"
  by (auto simp: getOpponent_def split: list.splits if_splits)

lemma createGame_turns: "turns_seated rs \<Longrightarrow> turns_seated (rooms_after (createGame rs s code))"
  by (simp add: createGame_def Let_def turns_seated_upd turn_seated_def)

lemma joinGame_turns: "turns_seated rs \<Longrightarrow> turns_seated (rooms_after (joinGame rs s code))"
proof (cases "rs code")
  case None
  then show "turns_seated rs \<Longrightarrow> ?thesis" by (simp add: joinGame_def reject_def)
next
  case (Some r)
  assume a: "turns_seated rs"
  then have r: "turn_seated r" using Some by (simp add: turns_seated_def)
  show ?thesis
  proof (cases "length (players r) \<ge> 2")
    case True
    then show ?thesis using a Some by (simp add: joinGame_def reject_def)
  next
    case False
    then have "turn_seated (r\<lparr>players := players r @ [newPlayer s]\<rparr>)"
      using r by (auto simp: turn_seated_def)
    then show ?thesis using a Some False
      by (simp add: joinGame_def Let_def turns_seated_upd)
  qed
qed

lemma placeShips_turns:
  assumes a: "turns_seated rs"
  shows "turns_seated (rooms_after (placeShips rs s code submitted))"
proof (cases "reply (placeShips rs s code submitted) = Success")
  case False
  then have "rooms_after (placeShips rs s code submitted) = rs"
    by (auto simp: placeShips_def reject_def Let_def split: option.splits sum.splits if_splits)
  with a show ?thesis by simp
next
  case True
  from placeShips_SuccessD[OF True] obtain r p0 pl where
    f: "rs code = Some r" "getPlayer r s = Some p0" "validateShips submitted = Inr pl"
    by blast
  note pc = placeShips_commit[where rs = rs and code = code, OF f]
  let ?ps = "store s pl (players r)"
  have r: "turn_seated r" using a f(1) by (simp add: turns_seated_def)
  have 1: "turn_seated (r\<lparr>players := ?ps\<rparr>)"
    using r by (rule turn_seated_same_seats) simp
  show ?thesis
  proof (cases "length (players r) = 2 \<and> list_all ready ?ps")
    case True
    then have "?ps ! 0 \<in> set ?ps" by simp
    then have "turn_seated (r\<lparr>players := ?ps\<rparr>\<lparr>turn := Some (pid (?ps ! 0))\<rparr>)"
      by (intro turn_seated_turn 1) simp
    then show ?thesis using True a by (simp add: pc turns_seated_upd)
  next
    case False
    then show ?thesis using 1 a by (auto simp: pc turns_seated_upd)
  qed
qed

text \<open>The rooms an attack leaves behind: unchanged, or the attacker's seat and the turn written.\<close>

lemma attack_rooms:
  "rooms_after (attack rs s code t) = rs
   \<or> (\<exists>r opp p player' tn. rs code = Some r \<and> getOpponent r s = Some opp
        \<and> getPlayer r s = Some p \<and> pid player' = s
        \<and> board player' = board p \<and> ships player' = ships p \<and> ready player' = ready p
        \<and> (tn = turn r \<or> tn = Some (pid opp))
        \<and> rooms_after (attack rs s code t)
            = rs(code \<mapsto> r\<lparr>players := update_first (\<lambda>q. pid q = s) (\<lambda>_. player') (players r),
                            turn := tn\<rparr>))"
proof (cases "rs code")
  case None
  then show ?thesis by (simp add: attack_def reject_def)
next
  case (Some r)
  show ?thesis
  proof (cases "turn r = Some s \<and> getOpponent r s \<noteq> None \<and> getPlayer r s \<noteq> None")
    case False
    then show ?thesis using Some
      by (auto simp: attack_def reject_def split: option.splits)
  next
    case True
    then obtain opp p where op: "turn r = Some s" "getOpponent r s = Some opp"
        "getPlayer r s = Some p" by auto
    have pid: "pid p = s" using op(3) by (rule getPlayer_pid)
    show ?thesis
    proof (cases "outOfRange t \<or> coordKey t \<in> hits p \<or> coordKey t \<in> misses p
                  \<or> board_get (board opp) t = None")
      case True
      then show ?thesis using Some op by (auto simp: attack_def reject_def)
    next
      case False
      then obtain cell where cell: "board_get (board opp) t = Some cell" by auto
      let ?h = "p\<lparr>hits := insert (coordKey t) (hits p)\<rparr>"
      let ?m = "p\<lparr>misses := insert (coordKey t) (misses p)\<rparr>"
      let ?goal = ?thesis
      have shot: "\<And>player' res name. pid player' = s \<Longrightarrow> board player' = board p \<Longrightarrow>
          ships player' = ships p \<Longrightarrow> ready player' = ready p \<Longrightarrow>
          rooms_after (attack rs s code t)
            = rooms_after (finishAttack rs s code t r opp player' res name) \<Longrightarrow> ?goal"
      proof -
        fix player' res name
        assume h: "pid player' = s" "board player' = board p" "ships player' = ships p"
          "ready player' = ready p"
          "rooms_after (attack rs s code t)
            = rooms_after (finishAttack rs s code t r opp player' res name)"
        have "rooms_after (attack rs s code t)
            = rs(code \<mapsto> r\<lparr>players := update_first (\<lambda>q. pid q = s) (\<lambda>_. player') (players r),
                   turn := (if allShipsSunk (ships opp) (hits player') then turn r
                            else Some (pid opp))\<rparr>)"
          by (simp add: h(5) finishAttack_eq after_shot_def)
        moreover have "(if allShipsSunk (ships opp) (hits player') then turn r
                            else Some (pid opp)) = turn r
             \<or> (if allShipsSunk (ships opp) (hits player') then turn r
                            else Some (pid opp)) = Some (pid opp)" by simp
        ultimately show ?goal using Some op h(1-4) by blast
      qed
      show ?thesis
      proof (cases "truthy cell")
        case miss: False
        have "attack rs s code t = finishAttack rs s code t r opp ?m Miss None"
          using Some op False cell miss by (simp add: attack_def)
        then show ?thesis using pid by (intro shot[of ?m Miss None]) simp_all
      next
        case hit: True
        show ?thesis
        proof (cases "find (\<lambda>sh. Some (ship_name sh) = cell) (ships opp)")
          case None
          then have "rooms_after (attack rs s code t)
            = rs(code \<mapsto> r\<lparr>players := update_first (\<lambda>q. pid q = s) (\<lambda>_. ?h) (players r)\<rparr>)"
            using Some op False cell hit by (simp add: attack_def Let_def)
          then have "rooms_after (attack rs s code t)
            = rs(code \<mapsto> r\<lparr>players := update_first (\<lambda>q. pid q = s) (\<lambda>_. ?h) (players r),
                            turn := turn r\<rparr>)" by simp
          moreover have "pid ?h = s" "board ?h = board p" "ships ?h = ships p"
            "ready ?h = ready p" using pid by simp_all
          ultimately show ?thesis using Some op by blast
        next
          case (Some sh)
          let ?res = "if length (filter (\<lambda>c. cellKey c \<in> hits ?h) (ship_cells sh))
                           = length (ship_cells sh) then Sunk else Hit"
          have "attack rs s code t = finishAttack rs s code t r opp ?h ?res cell"
            using \<open>rs code = Some r\<close> op False cell hit Some by (simp add: attack_def Let_def)
          then show ?thesis using pid by (intro shot[of ?h ?res cell]) simp_all
        qed
      qed
    qed
  qed
qed

lemma attack_turns:
  assumes a: "turns_seated rs"
  shows "turns_seated (rooms_after (attack rs s code t))"
proof -
  from attack_rooms[of rs s code t] show ?thesis
  proof
    assume "rooms_after (attack rs s code t) = rs"
    with a show ?thesis by simp
  next
    assume "\<exists>r opp p player' tn. rs code = Some r \<and> getOpponent r s = Some opp
        \<and> getPlayer r s = Some p \<and> pid player' = s
        \<and> board player' = board p \<and> ships player' = ships p \<and> ready player' = ready p
        \<and> (tn = turn r \<or> tn = Some (pid opp))
        \<and> rooms_after (attack rs s code t)
            = rs(code \<mapsto> r\<lparr>players := update_first (\<lambda>q. pid q = s) (\<lambda>_. player') (players r),
                            turn := tn\<rparr>)"
    then obtain r opp p player' tn where
      h: "rs code = Some r" "getOpponent r s = Some opp" "pid player' = s"
         "tn = turn r \<or> tn = Some (pid opp)"
         "rooms_after (attack rs s code t)
            = rs(code \<mapsto> r\<lparr>players := update_first (\<lambda>q. pid q = s) (\<lambda>_. player') (players r),
                            turn := tn\<rparr>)"
      by blast
    let ?ps = "update_first (\<lambda>q. pid q = s) (\<lambda>_. player') (players r)"
    have r: "turn_seated r" using a h(1) by (simp add: turns_seated_def)
    have m: "map pid ?ps = map pid (players r)"
      by (rule map_pid_update_first) (simp add: h(3))
    have o: "pid opp \<in> pid ` set (players r)" using getOpponent_mem[OF h(2)] by simp
    have "turn_seated (r\<lparr>players := ?ps, turn := tn\<rparr>)"
    proof -
      have l: "length ?ps = length (players r)" by simp
      have i: "pid ` set ?ps = pid ` set (players r)" using m by (metis set_map)
      from h(4) show ?thesis
      proof
        assume "tn = turn r"
        then show ?thesis using r by (simp add: turn_seated_def l i del: length_update_first)
      next
        assume "tn = Some (pid opp)"
        then show ?thesis using r o by (simp add: turn_seated_def i)
      qed
    qed
    then show ?thesis using a by (simp add: h(5) turns_seated_upd)
  qed
qed

text \<open>What \<open>leaveRoom\<close> does to the turn when the turn holder leaves an opponent behind.\<close>

lemma leaveRoom_turn_holder:
  assumes "rs code = Some r" "turn_seated r" "turn r = Some s" "getOpponent r s = Some opp"
    "snd (leaveRoom s rs code) code = Some r'"
  shows "turn r' = Some (pid opp) \<and> players r' = [opp] \<and> pid opp \<noteq> s"
proof -
  from assms(4) obtain a b rest where ps: "players r = a # b # rest"
    and opp: "opp = (if pid a = s then b else a)"
    by (auto simp: getOpponent_def split: list.splits)
  from assms(2) ps have rest: "rest = []" by (simp add: turn_seated_def)
  have ne: "filter (\<lambda>p. pid p \<noteq> s) (players r) \<noteq> []"
    using assms(1,5) by (auto simp: leaveRoom_def Let_def split: if_splits)
  from ne ps rest opp have f: "filter (\<lambda>p. pid p \<noteq> s) (players r) = [opp]" "pid opp \<noteq> s"
    using assms(2,3) by (auto simp: turn_seated_def split: if_splits)
  from assms(1,3,4,5) f show ?thesis
    by (auto simp: leaveRoom_def Let_def)
qed

lemma leaveRoom_turns:
  assumes a: "turns_seated rs"
  shows "turns_seated (snd (leaveRoom s rs code))"
proof (cases "rs code")
  case None
  with a show ?thesis by (simp add: leaveRoom_def)
next
  case (Some r)
  let ?rem = "filter (\<lambda>p. pid p \<noteq> s) (players r)"
  have r: "turn_seated r" using a Some by (simp add: turns_seated_def)
  show ?thesis
  proof (cases "?rem = []")
    case True
    then show ?thesis using a Some by (simp add: leaveRoom_def Let_def turns_seated_del)
  next
    case False
    have len: "length ?rem \<le> 2"
      using r by (meson le_trans length_filter_le turn_seated_def)
    show ?thesis
    proof (cases "turn r = Some s")
      case wt: True
      show ?thesis
      proof (cases "getOpponent r s")
        case None
        have "hd ?rem \<in> set ?rem" using False by (rule hd_in_set)
        then have "turn_seated (r\<lparr>players := ?rem,
             turn := (if pid (hd ?rem) = [] then None else Some (pid (hd ?rem)))\<rparr>)"
          using len by (simp add: turn_seated_def)
        then show ?thesis using a Some False wt None
          by (simp add: leaveRoom_def Let_def turns_seated_upd)
      next
        case (Some opp)
        have "\<exists>r'. snd (leaveRoom s rs code) code = Some r'"
          using \<open>rs code = Some r\<close> False by (simp add: leaveRoom_def Let_def)
        then obtain r' where r': "snd (leaveRoom s rs code) code = Some r'" ..
        from leaveRoom_turn_holder[where rs = rs and code = code,
            OF \<open>rs code = Some r\<close> r wt Some r']
        have t: "turn r' = Some (pid opp)" "players r' = [opp]" by simp_all
        then have ts: "turn_seated r'" by (simp add: turn_seated_def)
        have "snd (leaveRoom s rs code) = rs(code \<mapsto> r')"
          using r' \<open>rs code = Some r\<close> False by (auto simp: leaveRoom_def Let_def)
        then show ?thesis using a ts by (simp add: turns_seated_upd)
      qed
    next
      case nt: False
      have "turn_seated (r\<lparr>players := ?rem\<rparr>)"
        using r nt len by (auto simp: turn_seated_def)
      then show ?thesis using a Some False nt
        by (simp add: leaveRoom_def Let_def turns_seated_upd)
    qed
  qed
qed

lemma disconnecting_turns:
  "turns_seated rs \<Longrightarrow> turns_seated (rooms_after (disconnecting rs s codes))"
proof (induction codes arbitrary: rs)
  case Nil
  then show ?case by simp
next
  case (Cons code codes)
  have "turns_seated (snd (leaveRoom s rs code))" using Cons.prems by (rule leaveRoom_turns)
  from Cons.IH[OF this] show ?case by (simp add: Let_def split_beta)
qed

lemma handle_turns: "turns_seated rs \<Longrightarrow> turns_seated (rooms_after (handle rs req))"
  by (cases req)
     (simp_all add: createGame_turns joinGame_turns placeShips_turns attack_turns
        disconnecting_turns)

lemma reachable_turns: "reachable rs \<Longrightarrow> turns_seated rs"
proof (induction rule: reachable.induct)
  case start
  then show ?case by (simp add: turns_seated_def)
next
  case (step rs req)
  then show ?case by (simp add: handle_turns)
qed

text \<open>
  C7. In every reachable state the turn of a room is unset or the identity of a player seated
  in the room. When the turn holder disconnects and the room lives on, the turn is the
  identity of the opponent, who is the only seat left, and the departed identity is gone.
\<close>

theorem turn_is_seated:
  assumes "reachable rs" and "rs code = Some r"
  shows "(turn r = None \<or> (\<exists>p\<in>set (players r). turn r = Some (pid p)))
    \<and> (\<forall>s opp r'. turn r = Some s \<and> getOpponent r s = Some opp
          \<and> rooms_after (disconnecting rs s [code]) code = Some r'
        \<longrightarrow> turn r' = Some (pid opp) \<and> players r' = [opp] \<and> pid opp \<noteq> s)"
proof -
  have ts: "turn_seated r" using reachable_turns[OF assms(1)] assms(2)
    by (simp add: turns_seated_def)
  then have 1: "turn r = None \<or> (\<exists>p\<in>set (players r). turn r = Some (pid p))"
    by (cases "turn r") (auto simp: turn_seated_def)
  have 2: "\<forall>s opp r'. turn r = Some s \<and> getOpponent r s = Some opp
          \<and> rooms_after (disconnecting rs s [code]) code = Some r'
        \<longrightarrow> turn r' = Some (pid opp) \<and> players r' = [opp] \<and> pid opp \<noteq> s"
  proof (intro allI impI)
    fix s opp r'
    assume h: "turn r = Some s \<and> getOpponent r s = Some opp
          \<and> rooms_after (disconnecting rs s [code]) code = Some r'"
    then have "snd (leaveRoom s rs code) code = Some r'"
      by (simp add: Let_def split_beta)
    with leaveRoom_turn_holder[where rs = rs and code = code, OF assms(2) ts] h
    show "turn r' = Some (pid opp) \<and> players r' = [opp] \<and> pid opp \<noteq> s" by blast
  qed
  from 1 2 show ?thesis ..
qed

theorem turn_is_seated_witness:
  "reachable battle
   \<and> battle ''000001'' = Some \<lparr>players = [seated ''alice'' {} {}, seated ''bob'' {} {}],
                                turn = Some ''alice''\<rparr>
   \<and> getOpponent \<lparr>players = [seated ''alice'' {} {}, seated ''bob'' {} {}],
                   turn = Some ''alice''\<rparr> ''alice'' = Some (seated ''bob'' {} {})
   \<and> rooms_after (disconnecting battle ''alice'' [''000001'']) ''000001''
       = Some \<lparr>players = [seated ''bob'' {} {}], turn = Some ''bob''\<rparr>
   \<and> turn \<lparr>players = [seated ''bob'' {} {}], turn = Some ''bob''\<rparr>
       = Some (pid (seated ''bob'' {} {}))"
proof -
  let ?r = "\<lparr>players = [seated ''alice'' {} {}, seated ''bob'' {} {}], turn = Some ''alice''\<rparr>"
  let ?r' = "\<lparr>players = [seated ''bob'' {} {}], turn = Some ''bob''\<rparr>"
  have b: "battle ''000001'' = Some ?r" by (simp add: battle_def)
  have o: "getOpponent ?r ''alice'' = Some (seated ''bob'' {} {})"
    by (simp add: getOpponent_def seated_def)
  have d: "rooms_after (disconnecting battle ''alice'' [''000001'']) ''000001'' = Some ?r'"
    by (simp add: battle_def leaveRoom_def Let_def getOpponent_def seated_def)
  from turn_is_seated[OF reachable_battle b] o d
  have "turn ?r' = Some (pid (seated ''bob'' {} {}))" by simp
  with reachable_battle b o d show ?thesis by simp
qed

section \<open>Placing again\<close>

lemma validate_shifted_eq:
  "\<exists>pl. validateShips (Some shifted_fleet) = Inr pl \<and> pl_board pl = shifted_board
        \<and> pl_sanitizedShips pl = shifted_ships"
  by (simp add: validateShips_def shifted_fleet_def entry_def SHIPS_def
      emptyPlacement_def placeShip_def checkLine_def varyingAxes_def axes_def set_size_def
      shifted_board_def shifted_ships_def lane1_def no_lane_def board_set_def
      createEmptyBoard_def BOARD_SIZE_def numeral_eq_Suc)

lemma after_first_shot_eq:
  "after_first_shot = [''000001'' \<mapsto> \<lparr>players = [seated ''alice'' {} {(num 2, num 2, num 2)},
                        seated ''bob'' {} {}], turn = Some ''bob''\<rparr>]"
  by (simp add: after_first_shot_def first_shot)

lemma reachable_after_first_shot: "reachable after_first_shot"
proof -
  have "reachable (rooms_after (handle battle (Attack ''alice'' ''000001'' (pt 2 2 2))))"
    by (rule reachable.step[OF reachable_battle]) simp
  then show ?thesis by (simp add: after_first_shot_def)
qed

lemma resubmission:
  "placeShips after_first_shot ''alice'' ''000001'' (Some shifted_fleet) =
     \<lparr>reply = Success,
      emitted = [(''000001'', RoomState [(''alice'', True), (''bob'', True)] (Some ''bob'') True),
                 (''000001'', GameStarted (Some ''alice'')),
                 (''000001'', RoomState [(''alice'', True), (''bob'', True)] (Some ''alice'') True)],
      rooms_after = [''000001'' \<mapsto> \<lparr>players =
          [(seated ''alice'' {} {(num 2, num 2, num 2)})
              \<lparr>board := shifted_board, ships := shifted_ships\<rparr>,
           seated ''bob'' {} {}],
        turn = Some ''alice''\<rparr>]\<rparr>"
proof -
  from validate_shifted_eq obtain pl where pl: "validateShips (Some shifted_fleet) = Inr pl"
    "pl_board pl = shifted_board" "pl_sanitizedShips pl = shifted_ships" by blast
  show ?thesis
    by (simp add: placeShips_def after_first_shot_eq getPlayer_def Let_def pl seated_def
        emitRoomState_def truthy_def)
qed

text \<open>
  C2, as stated, fails. In the started match \<open>after_first_shot\<close> ''alice'' is ready and it is
  ''bob'''s turn; ''alice'' submits another valid fleet; the submission is accepted, her board
  and ships are replaced, and the turn is set back to her.
\<close>

theorem resubmission_accepted:
  "reachable after_first_shot
   \<and> after_first_shot ''000001''
       = Some \<lparr>players = [seated ''alice'' {} {(num 2, num 2, num 2)}, seated ''bob'' {} {}],
               turn = Some ''bob''\<rparr>
   \<and> ready (seated ''alice'' {} {(num 2, num 2, num 2)})
   \<and> board (seated ''alice'' {} {(num 2, num 2, num 2)}) = canonical_board
   \<and> reply (placeShips after_first_shot ''alice'' ''000001'' (Some shifted_fleet)) = Success
   \<and> rooms_after (placeShips after_first_shot ''alice'' ''000001'' (Some shifted_fleet))
        ''000001''
       = Some \<lparr>players =
          [(seated ''alice'' {} {(num 2, num 2, num 2)})
              \<lparr>board := shifted_board, ships := shifted_ships\<rparr>,
           seated ''bob'' {} {}],
          turn = Some ''alice''\<rparr>
   \<and> shifted_board \<noteq> canonical_board
   \<and> shifted_ships \<noteq> canonical_ships"
proof -
  have 1: "shifted_board \<noteq> canonical_board"
    by (simp add: shifted_board_def canonical_board_def lane_def lane1_def)
  have 2: "shifted_ships \<noteq> canonical_ships"
    by (simp add: shifted_ships_def canonical_ships_def)
  have 3: "after_first_shot ''000001''
       = Some \<lparr>players = [seated ''alice'' {} {(num 2, num 2, num 2)}, seated ''bob'' {} {}],
               turn = Some ''bob''\<rparr>"
    by (simp add: after_first_shot_eq)
  have 4: "ready (seated ''alice'' {} {(num 2, num 2, num 2)})
     \<and> board (seated ''alice'' {} {(num 2, num 2, num 2)}) = canonical_board"
    by (simp add: seated_def)
  have 5: "reply (placeShips after_first_shot ''alice'' ''000001'' (Some shifted_fleet)) = Success
   \<and> rooms_after (placeShips after_first_shot ''alice'' ''000001'' (Some shifted_fleet))
        ''000001''
       = Some \<lparr>players =
          [(seated ''alice'' {} {(num 2, num 2, num 2)})
              \<lparr>board := shifted_board, ships := shifted_ships\<rparr>,
           seated ''bob'' {} {}],
          turn = Some ''alice''\<rparr>"
    by (simp add: resubmission)
  from reachable_after_first_shot 1 2 3 4 5 show ?thesis by blast
qed

lemma update_first_mem:
  "x \<in> set (update_first P f xs) \<Longrightarrow> x \<in> set xs \<or> (\<exists>y\<in>set xs. P y \<and> x = f y)"
  by (induction xs) (auto split: if_splits)

lemma kept_refl [simp]: "kept p p"
  by (simp add: kept_def)

lemma leaveRoom_seats:
  assumes "snd (leaveRoom s rs code') code = Some r'" "p' \<in> set (players r')"
  shows "\<exists>r. rs code = Some r \<and> p' \<in> set (players r)"
proof (cases "rs code'")
  case None
  with assms show ?thesis by (simp add: leaveRoom_def)
next
  case (Some r0)
  show ?thesis
  proof (cases "code = code'")
    case False
    with assms Some show ?thesis
      by (auto simp: leaveRoom_def Let_def split: if_splits)
  next
    case True
    with assms Some have "p' \<in> set (filter (\<lambda>p. pid p \<noteq> s) (players r0))"
      by (auto simp: leaveRoom_def Let_def split: if_splits)
    with True Some show ?thesis by simp
  qed
qed

lemma disconnecting_seats:
  "rooms_after (disconnecting rs s codes) code = Some r' \<Longrightarrow> p' \<in> set (players r') \<Longrightarrow>
     \<exists>r. rs code = Some r \<and> p' \<in> set (players r)"
proof (induction codes arbitrary: rs)
  case Nil
  then show ?case by simp
next
  case (Cons c codes)
  from Cons.prems have "rooms_after (disconnecting (snd (leaveRoom s rs c)) s codes) code = Some r'"
    by (simp add: Let_def split_beta)
  from Cons.IH[OF this Cons.prems(2)] obtain r1 where
    "snd (leaveRoom s rs c) code = Some r1" "p' \<in> set (players r1)" by blast
  then show ?case by (rule leaveRoom_seats)
qed

text \<open>
  C2, amended. After any request, every seat of a room either carries the identity, ready
  flag, board and ships of a seat that was in the room before, or is a fresh seat of a create
  or join, or belongs to the sender of an accepted \<^verbatim>\<open>placeShips\<close> and is ready with exactly
  the validated board and ships of that submission. So ready never goes back to false, and
  board and ships are written by the player's own accepted \<^verbatim>\<open>placeShips\<close> only.
\<close>

theorem seats_written_by_own_placement:
  assumes "rooms_after (handle rs req) code = Some r'" and "p' \<in> set (players r')"
  shows "(\<exists>r p. rs code = Some r \<and> p \<in> set (players r) \<and> kept p p')
       \<or> (\<exists>s. p' = newPlayer s \<and> (req = CreateGame s code \<or> req = JoinGame s code))
       \<or> (\<exists>s submitted pl. req = PlaceShips s code submitted
             \<and> validateShips submitted = Inr pl \<and> pid p' = s \<and> ready p'
             \<and> board p' = pl_board pl \<and> ships p' = pl_sanitizedShips pl)"
proof (cases req)
  case (CreateGame s c)
  with assms show ?thesis
    by (cases "code = c") (auto simp: createGame_def Let_def)
next
  case (JoinGame s c)
  show ?thesis
  proof (cases "reply (joinGame rs s c) = Success \<and> code = c")
    case False
    then have "rooms_after (handle rs req) code = rs code"
      using JoinGame
      by (auto simp: joinGame_def reject_def Let_def split: option.splits if_splits)
    with assms show ?thesis by auto
  next
    case True
    then obtain r where r: "rs c = Some r" "\<not> length (players r) \<ge> 2"
      by (auto simp: joinGame_def reject_def split: option.splits if_splits)
    with assms JoinGame True have "p' \<in> set (players r) \<or> p' = newPlayer s"
      by (auto simp: joinGame_def Let_def)
    with r True JoinGame show ?thesis by auto
  qed
next
  case (PlaceShips s c submitted)
  show ?thesis
  proof (cases "reply (placeShips rs s c submitted) = Success \<and> code = c")
    case False
    have "rooms_after (handle rs req) code = rs code"
    proof (cases "reply (placeShips rs s c submitted) = Success")
      case False
      then have "rooms_after (placeShips rs s c submitted) = rs"
        by (auto simp: placeShips_def reject_def Let_def split: option.splits sum.splits if_splits)
      then show ?thesis using PlaceShips by simp
    next
      case True
      with False have ne: "code \<noteq> c" by simp
      from placeShips_SuccessD[OF True] obtain r p0 pl where
        f: "rs c = Some r" "getPlayer r s = Some p0" "validateShips submitted = Inr pl"
        by blast
      note pc = placeShips_commit[where rs = rs and code = c, OF f]
      show ?thesis using PlaceShips ne by (auto simp: pc)
    qed
    with assms show ?thesis by auto
  next
    case True
    then have su: "reply (placeShips rs s c submitted) = Success" and c: "code = c" by simp_all
    from placeShips_SuccessD[OF su] obtain r p0 pl where
      f: "rs c = Some r" "getPlayer r s = Some p0" "validateShips submitted = Inr pl"
      by blast
    note pc = placeShips_commit[where rs = rs and code = c, OF f]
    from assms PlaceShips c have "players r' = store s pl (players r)"
      by (auto simp: pc split: if_splits)
    with assms(2) have "p' \<in> set (update_first (\<lambda>p. pid p = s)
         (\<lambda>p. p\<lparr>board := pl_board pl, ships := pl_sanitizedShips pl, ready := True\<rparr>)
         (players r))"
      by (simp add: store_def)
    from update_first_mem[OF this]
    have "p' \<in> set (players r) \<or> (\<exists>y\<in>set (players r). pid y = s
         \<and> p' = y\<lparr>board := pl_board pl, ships := pl_sanitizedShips pl, ready := True\<rparr>)"
      by simp
    then show ?thesis
    proof
      assume "p' \<in> set (players r)"
      with f(1) c show ?thesis by auto
    next
      assume "\<exists>y\<in>set (players r). pid y = s
         \<and> p' = y\<lparr>board := pl_board pl, ships := pl_sanitizedShips pl, ready := True\<rparr>"
      then have "pid p' = s \<and> ready p' \<and> board p' = pl_board pl
          \<and> ships p' = pl_sanitizedShips pl" by auto
      with PlaceShips c f(3) show ?thesis by blast
    qed
  qed
next
  case (Attack s c t)
  from attack_rooms[of rs s c t] show ?thesis
  proof
    assume "rooms_after (attack rs s c t) = rs"
    with assms Attack show ?thesis by auto
  next
    assume "\<exists>r opp p player' tn. rs c = Some r \<and> getOpponent r s = Some opp
        \<and> getPlayer r s = Some p \<and> pid player' = s
        \<and> board player' = board p \<and> ships player' = ships p \<and> ready player' = ready p
        \<and> (tn = turn r \<or> tn = Some (pid opp))
        \<and> rooms_after (attack rs s c t)
            = rs(c \<mapsto> r\<lparr>players := update_first (\<lambda>q. pid q = s) (\<lambda>_. player') (players r),
                            turn := tn\<rparr>)"
    then obtain r p player' tn where
      h: "rs c = Some r" "getPlayer r s = Some p" "pid player' = s"
         "board player' = board p" "ships player' = ships p" "ready player' = ready p"
         "rooms_after (attack rs s c t)
            = rs(c \<mapsto> r\<lparr>players := update_first (\<lambda>q. pid q = s) (\<lambda>_. player') (players r),
                            turn := tn\<rparr>)"
      by blast
    show ?thesis
    proof (cases "code = c")
      case False
      with assms Attack h(7) show ?thesis by auto
    next
      case True
      with assms Attack h(7)
      have "p' \<in> set (update_first (\<lambda>q. pid q = s) (\<lambda>_. player') (players r))" by auto
      then have "p' \<in> set (players r) \<or> p' = player'"
        using update_first_mem by fast
      moreover have "p \<in> set (players r)" "pid p = s"
        using h(2) by (simp_all add: getPlayer_mem getPlayer_pid)
      then have "p \<in> set (players r) \<and> kept p player'" using h(3-6) by (simp add: kept_def)
      ultimately show ?thesis using h(1) True by auto
    qed
  qed
next
  case (Disconnecting s codes)
  with assms have "rooms_after (disconnecting rs s codes) code = Some r'" by simp
  from disconnecting_seats[OF this assms(2)] obtain r where
    "rs code = Some r" "p' \<in> set (players r)" by blast
  then have "\<exists>r p. rs code = Some r \<and> p \<in> set (players r) \<and> kept p p'"
    using kept_refl by blast
  then show ?thesis by (rule disjI1)
qed

theorem seats_written_by_own_placement_witness:
  "rooms_after (handle after_first_shot
       (PlaceShips ''alice'' ''000001'' (Some shifted_fleet))) ''000001''
     = Some \<lparr>players =
          [(seated ''alice'' {} {(num 2, num 2, num 2)})
              \<lparr>board := shifted_board, ships := shifted_ships\<rparr>,
           seated ''bob'' {} {}],
          turn = Some ''alice''\<rparr>
   \<and> (\<exists>pl. validateShips (Some shifted_fleet) = Inr pl
        \<and> ready ((seated ''alice'' {} {(num 2, num 2, num 2)})
              \<lparr>board := shifted_board, ships := shifted_ships\<rparr>)
        \<and> shifted_board = pl_board pl \<and> shifted_ships = pl_sanitizedShips pl)"
proof -
  let ?p = "(seated ''alice'' {} {(num 2, num 2, num 2)})
              \<lparr>board := shifted_board, ships := shifted_ships\<rparr>"
  let ?r = "\<lparr>players = [?p, seated ''bob'' {} {}], turn = Some ''alice''\<rparr>"
  have h: "rooms_after (handle after_first_shot
       (PlaceShips ''alice'' ''000001'' (Some shifted_fleet))) ''000001'' = Some ?r"
    by (simp add: resubmission)
  have m: "?p \<in> set (players ?r)" by simp
  have old: "\<not> (\<exists>r p. after_first_shot ''000001'' = Some r \<and> p \<in> set (players r) \<and> kept p ?p)"
  proof
    assume "\<exists>r p. after_first_shot ''000001'' = Some r \<and> p \<in> set (players r) \<and> kept p ?p"
    then obtain r p where
      k: "after_first_shot ''000001'' = Some r" "p \<in> set (players r)" "kept p ?p"
      by (elim exE conjE)
    from k(1) have "players r
        = [seated ''alice'' {} {(num 2, num 2, num 2)}, seated ''bob'' {} {}]"
      by (auto simp: after_first_shot_eq)
    with k(2) have "board p = canonical_board" by (auto simp: seated_def)
    moreover from k(3) have "board p = shifted_board" by (simp add: kept_def)
    moreover have "shifted_board \<noteq> canonical_board"
      by (simp add: shifted_board_def canonical_board_def lane_def lane1_def)
    ultimately show False by simp
  qed
  have new: "\<And>s. ?p \<noteq> newPlayer s" by (simp add: newPlayer_def seated_def)
  from seats_written_by_own_placement[OF h m] old new
  have "\<exists>pl. validateShips (Some shifted_fleet) = Inr pl
        \<and> ready ?p \<and> board ?p = pl_board pl \<and> ships ?p = pl_sanitizedShips pl"
    by auto
  with h show ?thesis by simp
qed

section \<open>Game start\<close>

lemma bob_gone_eq:
  "bob_gone = [''000001'' \<mapsto> \<lparr>players = [seated ''alice'' {} {}], turn = Some ''alice''\<rparr>]"
  by (simp add: bob_gone_def battle_def leaveRoom_def Let_def getOpponent_def seated_def)

lemma reachable_bob_gone: "reachable bob_gone"
proof -
  have "reachable (rooms_after (handle battle (Disconnecting ''bob'' [''000001''])))"
    by (rule reachable.step[OF reachable_battle]) simp
  then show ?thesis by (simp add: bob_gone_def)
qed

lemma lone_placement:
  "placeShips bob_gone ''alice'' ''000001'' (Some canonical_fleet) =
     \<lparr>reply = Success,
      emitted = [(''000001'', RoomState [(''alice'', True)] (Some ''alice'') True),
                 (''000001'', PlayerReady)],
      rooms_after = [''000001'' \<mapsto> \<lparr>players = [seated ''alice'' {} {}],
                                         turn = Some ''alice''\<rparr>]\<rparr>"
proof -
  from validate_canonical_eq obtain pl where pl: "validateShips (Some canonical_fleet) = Inr pl"
    "pl_board pl = canonical_board" "pl_sanitizedShips pl = canonical_ships" by blast
  show ?thesis
    by (simp add: placeShips_def bob_gone_eq getPlayer_def Let_def pl seated_def
        emitRoomState_def truthy_def)
qed



lemma alice_places_second:
  "reply (placeShips bob_ready ''alice'' ''000001'' (Some canonical_fleet)) = Success"
proof -
  from bob_ready_eq obtain pl where "validateShips (Some canonical_fleet) = Inr pl"
    and b: "bob_ready = [''000001'' \<mapsto> \<lparr>players = [newPlayer ''alice'',
        (newPlayer ''bob'')\<lparr>board := pl_board pl, ships := pl_sanitizedShips pl, ready := True\<rparr>],
        turn = None\<rparr>]" by blast
  then show ?thesis
    by (simp add: placeShips_def b getPlayer_def newPlayer_def Let_def)
qed

lemma alice_places_second_room:
  "\<exists>r r'. bob_ready ''000001'' = Some r
     \<and> rooms_after (placeShips bob_ready ''alice'' ''000001'' (Some canonical_fleet)) ''000001''
         = Some r'
     \<and> map pid (players r) = [''alice'', ''bob'']
     \<and> length (players r') = 2 \<and> list_all ready (players r')"
proof -
  from bob_ready_eq obtain pl where pl: "validateShips (Some canonical_fleet) = Inr pl"
    and b: "bob_ready = [''000001'' \<mapsto> \<lparr>players = [newPlayer ''alice'',
        (newPlayer ''bob'')\<lparr>board := pl_board pl, ships := pl_sanitizedShips pl, ready := True\<rparr>],
        turn = None\<rparr>]" by blast
  show ?thesis
    by (simp add: placeShips_def b getPlayer_def newPlayer_def Let_def pl)
qed


end
